theory Spec2Isabelle
  imports Main "HOL-Library.Multiset"
begin

section \<open>Configuration constants (CacheReplacementSimulator.hpp)\<close>

definition PRIVILEGED_PARTITION_SIZE :: int where
  "PRIVILEGED_PARTITION_SIZE = 5"

definition UNPRIVILEGED_PARTITION_SIZE :: int where
  "UNPRIVILEGED_PARTITION_SIZE = 5"

definition INT_MAX :: int where
  "INT_MAX = 2147483647"

section \<open>Data model\<close>

text \<open>
  A \<open>Frame\<close> is one cache slot. The field \<open>time\<close> is a reading of
  \<open>std::chrono::steady_clock\<close>; it is kept as an abstract tick count. The C++
  \<open>int\<close> fields are unbounded integers here: signed overflow is undefined in C++
  and is not reached by traces shorter than \<open>2^31\<close> references.
\<close>

record Frame =
  index :: int
  page :: int
  time :: nat
  extra :: int
  frequency :: int
  lastUsed :: int

record PageRef =
  pageNum :: int
  pid :: int

record Partition =
  frames :: "Frame list"
  partition_size :: int

record LFRUData =
  privileged :: Partition
  unprivileged :: Partition

text \<open>\<open>execTime\<close> (a floating-point duration) is not part of the model.\<close>

record AlgorithmData =
  hits :: int
  misses :: int
  pageTable :: "Frame list"
  victimList :: "Frame list"
  lfruData :: "LFRUData option"

datatype Policy =
  OPTIMAL | RANDOM | FIFO | LRU | CLOCK | NFU | AGING | MRU | NRU | MFU | LFU | LFRU

text \<open>
  An \<open>Algorithm\<close> bundles the label, the policy function (here the tag of the member
  function the lambda calls), the selection flag and the policy's data.
\<close>

record Algorithm =
  label :: string
  algoFunc :: Policy
  selected :: bool
  data :: AlgorithmData

text \<open>
  The environment of a process: the two function-local statics of the source
  (\<open>timeCounter\<close> of \<open>getCurrentTime\<close>, \<open>clockHand\<close> of \<open>clock\<close>), the random
  generator and the steady clock. \<open>rngDraws k\<close> is the \<open>k\<close>-th number the generator
  yields; \<open>steadyClock k\<close> is what \<open>steady_clock::now()\<close> returns during the \<open>k\<close>-th
  invocation that may read the clock (a construction of the frame tables or one policy
  call; no policy compares two readings taken in the same call).
\<close>

record Env =
  timeCounter :: int
  clockHand :: int
  rngDraws :: "nat \<Rightarrow> nat"
  rngPos :: nat
  steadyClock :: "nat \<Rightarrow> nat"
  clockReads :: nat

text \<open>The simulator object, together with the environment of the process it lives in.\<close>

record Sim =
  numFrames :: int
  pageRefUpperBound :: int
  maxPageCalls :: int
  debug :: bool
  printRefs :: bool
  counter :: int
  lastPageRef :: int
  pageRefs :: "PageRef list"
  algorithms :: "Algorithm list"
  env :: Env

section \<open>Standard-library helpers\<close>

text \<open>\<open>std::ranges::find_if\<close>: the position of the first element satisfying the predicate.\<close>

fun find_if :: "('a \<Rightarrow> bool) \<Rightarrow> 'a list \<Rightarrow> nat option" where
  "find_if P [] = None"
| "find_if P (x # xs) = (if P x then Some 0 else map_option Suc (find_if P xs))"

text \<open>
  \<open>std::ranges::min_element\<close> and \<open>max_element\<close> with a comparator: the position of the
  first smallest (largest) element, \<open>None\<close> for the end iterator of an empty range.
\<close>

definition min_element :: "('a \<Rightarrow> 'a \<Rightarrow> bool) \<Rightarrow> 'a list \<Rightarrow> nat option" where
  "min_element cmp xs =
     (if xs = [] then None
      else Some (fold (\<lambda>i smallest. if cmp (xs ! i) (xs ! smallest) then i else smallest)
                   [1..<length xs] 0))"

definition max_element :: "('a \<Rightarrow> 'a \<Rightarrow> bool) \<Rightarrow> 'a list \<Rightarrow> nat option" where
  "max_element cmp xs =
     (if xs = [] then None
      else Some (fold (\<lambda>i largest. if cmp (xs ! largest) (xs ! i) then i else largest)
                   [1..<length xs] 0))"

text \<open>Writing through an iterator into the page table, and logging a victim.\<close>

definition set_frame :: "nat \<Rightarrow> (Frame \<Rightarrow> Frame) \<Rightarrow> AlgorithmData \<Rightarrow> AlgorithmData" where
  "set_frame it f d = d\<lparr>pageTable := (pageTable d)[it := f (pageTable d ! it)]\<rparr>"

definition push_victim :: "nat \<Rightarrow> AlgorithmData \<Rightarrow> AlgorithmData" where
  "push_victim it d = d\<lparr>victimList := victimList d @ [pageTable d ! it]\<rparr>"

section \<open>Constructors\<close>

definition mkFrame :: "int \<Rightarrow> nat \<Rightarrow> Frame" where
  "mkFrame idx now =
     \<lparr>index = idx, page = -1, time = now, extra = 0, frequency = 0, lastUsed = 0\<rparr>"

text \<open>\<open>Partition::Partition\<close>: \<open>resize\<close> default-constructs the frames (index \<open>-1\<close>).\<close>

definition mkPartition :: "int \<Rightarrow> nat \<Rightarrow> Partition" where
  "mkPartition partitionSize now =
     \<lparr>frames = replicate (nat partitionSize) (mkFrame (-1) now),
      partition_size = partitionSize\<rparr>"

definition mkLFRUData :: "nat \<Rightarrow> LFRUData" where
  "mkLFRUData now =
     \<lparr>privileged = mkPartition PRIVILEGED_PARTITION_SIZE now,
      unprivileged = mkPartition UNPRIVILEGED_PARTITION_SIZE now\<rparr>"

definition mkAlgorithmData :: "int \<Rightarrow> nat \<Rightarrow> AlgorithmData" where
  "mkAlgorithmData nFrames now =
     \<lparr>hits = 0, misses = 0,
      pageTable = map (\<lambda>i. mkFrame (int i) now) [0..<nat nFrames],
      victimList = [], lfruData = None\<rparr>"

section \<open>The table-based policies\<close>

text \<open>
  Every policy returns \<open>False\<close> for a hit and \<open>True\<close> for a fault. The members of the
  simulator a policy reads (\<open>counter\<close>, \<open>lastPageRef\<close>, \<open>pageRefs\<close>, \<open>numFrames\<close>) and
  the clock reading are parameters.
\<close>

definition next_use :: "PageRef list \<Rightarrow> int \<Rightarrow> int \<Rightarrow> int" where
  "next_use refs cnt pg =
     (case find_if (\<lambda>r. pageNum r = pg) (drop (nat cnt + 1) refs) of
        Some k \<Rightarrow> cnt + 1 + int k
      | None \<Rightarrow> INT_MAX)"

text \<open>
  The victim loop of \<open>optimal\<close>: the pair is \<open>(maxDistance, victimIt)\<close>. With an
  empty table the source dereferences \<open>begin()\<close>, which is undefined: \<open>None\<close>.
\<close>

definition optimal_victim :: "PageRef list \<Rightarrow> int \<Rightarrow> Frame list \<Rightarrow> int \<times> nat" where
  "optimal_victim refs cnt tbl =
     fold (\<lambda>it (maxDistance, victimIt).
             let distance = next_use refs cnt (page (tbl ! it))
             in if distance > maxDistance then (distance, it) else (maxDistance, victimIt))
          [0..<length tbl] (-1, 0)"

definition optimal :: "PageRef list \<Rightarrow> int \<Rightarrow> int \<Rightarrow> nat \<Rightarrow> AlgorithmData \<Rightarrow> (bool \<times> AlgorithmData) option" where
  "optimal refs cnt ref now d =
     (case find_if (\<lambda>f. page f = ref) (pageTable d) of
        Some hitIt \<Rightarrow> Some (False, set_frame hitIt (\<lambda>f. f\<lparr>time := now, extra := cnt\<rparr>) d)
      | None \<Rightarrow>
        (case find_if (\<lambda>f. page f = -1) (pageTable d) of
           Some emptyIt \<Rightarrow>
             Some (True, set_frame emptyIt (\<lambda>f. f\<lparr>page := ref, time := now, extra := cnt\<rparr>) d)
         | None \<Rightarrow>
             (let victimIt = snd (optimal_victim refs cnt (pageTable d))
              in if pageTable d = [] then None
                 else Some (True, set_frame victimIt
                                    (\<lambda>f. f\<lparr>page := ref, time := now, extra := cnt\<rparr>)
                                    (push_victim victimIt d)))))"

text \<open>
  \<open>random\<close>: \<open>dist(rng)\<close> is uniform on \<open>[0, numFrames - 1]\<close>; the next draw of the
  generator is reduced into that range, and only the eviction path consumes a draw (the
  third component of the result is the new position in the generator's output). Indexing
  the vector outside its bounds is undefined in C++; the model returns \<open>None\<close> there.
\<close>

definition random_repl ::
  "int \<Rightarrow> int \<Rightarrow> int \<Rightarrow> nat \<Rightarrow> (nat \<Rightarrow> nat) \<Rightarrow> nat \<Rightarrow> AlgorithmData \<Rightarrow> (bool \<times> AlgorithmData \<times> nat) option" where
  "random_repl nFrames cnt ref now draws pos d =
     (case find_if (\<lambda>f. page f = ref) (pageTable d) of
        Some hitIt \<Rightarrow> Some (False, set_frame hitIt (\<lambda>f. f\<lparr>time := now, extra := cnt\<rparr>) d, pos)
      | None \<Rightarrow>
        (case find_if (\<lambda>f. page f = -1) (pageTable d) of
           Some emptyIt \<Rightarrow>
             Some (True, set_frame emptyIt (\<lambda>f. f\<lparr>page := ref, time := now, extra := cnt\<rparr>) d,
                   pos)
         | None \<Rightarrow>
             (let victimIndex = draws pos mod nat nFrames
              in if nFrames \<le> 0 \<or> victimIndex \<ge> length (pageTable d) then None
                 else Some (True, set_frame victimIndex
                                    (\<lambda>f. f\<lparr>page := ref, time := now, extra := cnt\<rparr>)
                                    (push_victim victimIndex d),
                            pos + 1))))"

definition fifo :: "int \<Rightarrow> int \<Rightarrow> nat \<Rightarrow> AlgorithmData \<Rightarrow> bool \<times> AlgorithmData" where
  "fifo cnt ref now d =
     (case find_if (\<lambda>f. page f = ref) (pageTable d) of
        Some hitIt \<Rightarrow> (False, d)
      | None \<Rightarrow>
        (case find_if (\<lambda>f. page f = -1) (pageTable d) of
           Some emptyIt \<Rightarrow>
             (True, set_frame emptyIt (\<lambda>f. f\<lparr>page := ref, time := now, extra := cnt\<rparr>) d)
         | None \<Rightarrow>
             (case min_element (\<lambda>a b. extra a < extra b) (pageTable d) of
                Some victimIt \<Rightarrow>
                  (True, set_frame victimIt (\<lambda>f. f\<lparr>page := ref, time := now, extra := cnt\<rparr>)
                           (push_victim victimIt d))
              | None \<Rightarrow> (True, d))))"

definition lru :: "int \<Rightarrow> int \<Rightarrow> nat \<Rightarrow> AlgorithmData \<Rightarrow> bool \<times> AlgorithmData" where
  "lru cnt ref now d =
     (case find_if (\<lambda>f. page f = ref) (pageTable d) of
        Some hitIt \<Rightarrow> (False, set_frame hitIt (\<lambda>f. f\<lparr>time := now, extra := cnt\<rparr>) d)
      | None \<Rightarrow>
        (case find_if (\<lambda>f. page f = -1) (pageTable d) of
           Some emptyIt \<Rightarrow>
             (True, set_frame emptyIt (\<lambda>f. f\<lparr>page := ref, time := now, extra := cnt\<rparr>) d)
         | None \<Rightarrow>
             (case min_element (\<lambda>a b. time a < time b) (pageTable d) of
                Some victimIt \<Rightarrow>
                  (True, set_frame victimIt (\<lambda>f. f\<lparr>page := ref, time := now, extra := cnt\<rparr>)
                           (push_victim victimIt d))
              | None \<Rightarrow> (True, d))))"

definition nfu :: "int \<Rightarrow> nat \<Rightarrow> AlgorithmData \<Rightarrow> bool \<times> AlgorithmData" where
  "nfu ref now d =
     (case find_if (\<lambda>f. page f = ref) (pageTable d) of
        Some hitIt \<Rightarrow> (False, set_frame hitIt (\<lambda>f. f\<lparr>extra := extra f + 1, time := now\<rparr>) d)
      | None \<Rightarrow>
        (case find_if (\<lambda>f. page f = -1) (pageTable d) of
           Some emptyIt \<Rightarrow>
             (True, set_frame emptyIt (\<lambda>f. f\<lparr>page := ref, time := now, extra := 0\<rparr>) d)
         | None \<Rightarrow>
             (case min_element (\<lambda>a b. extra a < extra b) (pageTable d) of
                Some victimIt \<Rightarrow>
                  (True, set_frame victimIt (\<lambda>f. f\<lparr>page := ref, time := now, extra := 0\<rparr>)
                           (push_victim victimIt d))
              | None \<Rightarrow> (True, d))))"

text \<open>\<open>aging\<close> first halves \<open>extra\<close> of every non-empty frame (C++ \<open>/=\<close> truncates
  towards zero).\<close>

definition age_frames :: "Frame list \<Rightarrow> Frame list" where
  "age_frames tbl =
     map (\<lambda>f. if page f \<noteq> -1 then f\<lparr>extra := sgn (extra f) * (\<bar>extra f\<bar> div 2)\<rparr> else f) tbl"

definition aging :: "int \<Rightarrow> nat \<Rightarrow> AlgorithmData \<Rightarrow> bool \<times> AlgorithmData" where
  "aging ref now d0 =
     (let d = d0\<lparr>pageTable := age_frames (pageTable d0)\<rparr> in
      case find_if (\<lambda>f. page f = ref) (pageTable d) of
        Some hitIt \<Rightarrow>
          (False, set_frame hitIt (\<lambda>f. f\<lparr>extra := extra f + 10000000, time := now\<rparr>) d)
      | None \<Rightarrow>
        (case find_if (\<lambda>f. page f = -1) (pageTable d) of
           Some emptyIt \<Rightarrow>
             (True, set_frame emptyIt (\<lambda>f. f\<lparr>page := ref, time := now, extra := 0\<rparr>) d)
         | None \<Rightarrow>
             (case min_element (\<lambda>a b. extra a < extra b) (pageTable d) of
                Some victimIt \<Rightarrow>
                  (True, set_frame victimIt (\<lambda>f. f\<lparr>page := ref, time := now, extra := 0\<rparr>)
                           (push_victim victimIt d))
              | None \<Rightarrow> (True, d))))"

definition mru :: "int \<Rightarrow> nat \<Rightarrow> AlgorithmData \<Rightarrow> bool \<times> AlgorithmData" where
  "mru ref now d =
     (case find_if (\<lambda>f. page f = ref) (pageTable d) of
        Some hitIt \<Rightarrow> (False, set_frame hitIt (\<lambda>f. f\<lparr>time := now\<rparr>) d)
      | None \<Rightarrow>
        (case find_if (\<lambda>f. page f = -1) (pageTable d) of
           Some emptyIt \<Rightarrow> (True, set_frame emptyIt (\<lambda>f. f\<lparr>page := ref, time := now\<rparr>) d)
         | None \<Rightarrow>
             (case max_element (\<lambda>a b. time a < time b) (pageTable d) of
                Some victimIt \<Rightarrow>
                  (True, set_frame victimIt (\<lambda>f. f\<lparr>page := ref, time := now\<rparr>)
                           (push_victim victimIt d))
              | None \<Rightarrow> (True, d))))"

definition nru :: "int \<Rightarrow> nat \<Rightarrow> AlgorithmData \<Rightarrow> bool \<times> AlgorithmData" where
  "nru ref now d =
     (case find_if (\<lambda>f. page f = ref) (pageTable d) of
        Some hitIt \<Rightarrow> (False, set_frame hitIt (\<lambda>f. f\<lparr>time := now\<rparr>) d)
      | None \<Rightarrow>
        (case find_if (\<lambda>f. page f = -1) (pageTable d) of
           Some emptyIt \<Rightarrow> (True, set_frame emptyIt (\<lambda>f. f\<lparr>page := ref, time := now\<rparr>) d)
         | None \<Rightarrow>
             (case min_element (\<lambda>a b. time a < time b) (pageTable d) of
                Some victimIt \<Rightarrow>
                  (True, set_frame victimIt (\<lambda>f. f\<lparr>page := ref, time := now\<rparr>)
                           (push_victim victimIt d))
              | None \<Rightarrow> (True, d))))"

definition mfu :: "int \<Rightarrow> AlgorithmData \<Rightarrow> bool \<times> AlgorithmData" where
  "mfu ref d =
     (case find_if (\<lambda>f. page f = ref) (pageTable d) of
        Some hitIt \<Rightarrow> (False, set_frame hitIt (\<lambda>f. f\<lparr>extra := extra f + 1\<rparr>) d)
      | None \<Rightarrow>
        (case find_if (\<lambda>f. page f = -1) (pageTable d) of
           Some emptyIt \<Rightarrow> (True, set_frame emptyIt (\<lambda>f. f\<lparr>page := ref, extra := 1\<rparr>) d)
         | None \<Rightarrow>
             (case max_element (\<lambda>a b. extra a < extra b) (pageTable d) of
                Some victimIt \<Rightarrow>
                  (True, set_frame victimIt (\<lambda>f. f\<lparr>page := ref, extra := 1\<rparr>)
                           (push_victim victimIt d))
              | None \<Rightarrow> (True, d))))"

text \<open>\<open>lfu\<close> calls \<open>getCurrentTime()\<close> once on every path: the static counter is
  incremented and its new value stored.\<close>

definition lfu_less :: "Frame \<Rightarrow> Frame \<Rightarrow> bool" where
  "lfu_less a b =
     (if frequency a \<noteq> frequency b then frequency a < frequency b
      else lastUsed a < lastUsed b)"

definition lfu :: "int \<Rightarrow> int \<Rightarrow> AlgorithmData \<Rightarrow> bool \<times> AlgorithmData \<times> int" where
  "lfu ref tc d =
     (case find_if (\<lambda>f. page f = ref) (pageTable d) of
        Some hitIt \<Rightarrow>
          (False, set_frame hitIt (\<lambda>f. f\<lparr>frequency := frequency f + 1, lastUsed := tc + 1\<rparr>) d,
           tc + 1)
      | None \<Rightarrow>
        (case find_if (\<lambda>f. page f = -1) (pageTable d) of
           Some emptyIt \<Rightarrow>
             (True, set_frame emptyIt (\<lambda>f. f\<lparr>page := ref, frequency := 1, lastUsed := tc + 1\<rparr>) d,
              tc + 1)
         | None \<Rightarrow>
             (case min_element lfu_less (pageTable d) of
                Some victimIt \<Rightarrow>
                  (True, set_frame victimIt
                           (\<lambda>f. f\<lparr>page := ref, frequency := 1, lastUsed := tc + 1\<rparr>)
                           (push_victim victimIt d),
                   tc + 1)
              | None \<Rightarrow> (True, d, tc))))"

section \<open>CLOCK\<close>

text \<open>
  The \<open>do ... while (clockHand != startHand)\<close> loop of \<open>clock\<close>. The result is
  \<open>(returned, data, clockHand, iterations)\<close>: \<open>returned\<close> tells whether the loop body
  found a victim and returned, the last component counts the executions of the loop body
  (it is not a variable of the source). Indexing outside the table and \<open>%\<close> by a
  non-positive number are undefined in C++: \<open>None\<close>.
\<close>

function clock_search ::
  "int \<Rightarrow> int \<Rightarrow> int \<Rightarrow> AlgorithmData \<Rightarrow> int \<Rightarrow> nat \<Rightarrow> (bool \<times> AlgorithmData \<times> int \<times> nat) option" where
  "clock_search nFrames ref startHand d hand iters =
     (if hand < 0 \<or> nat hand \<ge> length (pageTable d) \<or> nFrames \<le> 0 then None
      else if extra (pageTable d ! nat hand) = 0 then
        Some (True,
              set_frame (nat hand) (\<lambda>f. f\<lparr>page := ref, extra := 1\<rparr>) (push_victim (nat hand) d),
              (hand + 1) mod nFrames, iters + 1)
      else
        (let d' = set_frame (nat hand) (\<lambda>f. f\<lparr>extra := 0\<rparr>) d;
             hand' = (hand + 1) mod nFrames
         in if hand' \<noteq> startHand then clock_search nFrames ref startHand d' hand' (iters + 1)
            else Some (False, d', hand', iters + 1)))"
  by pat_completeness auto

lemma filter_update_less:
  "i < length xs \<Longrightarrow> P (xs ! i) \<Longrightarrow> \<not> P y \<Longrightarrow>
   length (filter P (xs[i := y])) < length (filter P xs)"
proof (induction xs arbitrary: i)
  case Nil
  then show ?case by simp
next
  case (Cons x xs)
  show ?case
  proof (cases i)
    case 0
    with Cons.prems show ?thesis by simp
  next
    case (Suc j)
    with Cons.prems Cons.IH [of j] show ?thesis by simp
  qed
qed

termination clock_search
proof (relation "measure (\<lambda>(nFrames, ref, startHand, d, hand, iters).
                   length (filter (\<lambda>f. extra f \<noteq> 0) (pageTable d)))", goal_cases)
  case 1
  show ?case by simp
next
  case (2 nFrames ref startHand d hand iters x xa)
  then have "nat hand < length (pageTable d)" and "extra (pageTable d ! nat hand) \<noteq> 0"
    by auto
  then have "length (filter (\<lambda>f. extra f \<noteq> 0)
                 ((pageTable d)[nat hand := (pageTable d ! nat hand)\<lparr>extra := 0\<rparr>]))
             < length (filter (\<lambda>f. extra f \<noteq> 0) (pageTable d))"
    by (intro filter_update_less) auto
  with 2 show ?case by (simp add: set_frame_def)
qed

declare clock_search.simps [simp del]

text \<open>\<open>clock\<close>: the third component of the result is the new value of the static hand.\<close>

definition clock :: "int \<Rightarrow> int \<Rightarrow> int \<Rightarrow> AlgorithmData \<Rightarrow> (bool \<times> AlgorithmData \<times> int) option" where
  "clock nFrames ref clockHand0 d =
     (let hand = (if clockHand0 \<ge> nFrames then 0 else clockHand0) in
      case find_if (\<lambda>f. page f = ref) (pageTable d) of
        Some hitIt \<Rightarrow> Some (False, set_frame hitIt (\<lambda>f. f\<lparr>extra := 1\<rparr>) d, hand)
      | None \<Rightarrow>
        (case find_if (\<lambda>f. page f = -1) (pageTable d) of
           Some emptyIt \<Rightarrow>
             Some (True, set_frame emptyIt (\<lambda>f. f\<lparr>page := ref, extra := 1\<rparr>) d, hand)
         | None \<Rightarrow>
             (case clock_search nFrames ref hand d hand 0 of
                None \<Rightarrow> None
              | Some (returned, d', hand', iters) \<Rightarrow>
                  if returned then Some (True, d', hand')
                  else if hand' < 0 \<or> nat hand' \<ge> length (pageTable d') then None
                  else Some (True,
                             set_frame (nat hand') (\<lambda>f. f\<lparr>page := ref, extra := 1\<rparr>)
                               (push_victim (nat hand') d'),
                             (hand' + 1) mod nFrames))))"

section \<open>LFRU\<close>

definition hasSpace :: "Partition \<Rightarrow> bool" where
  "hasSpace p = list_ex (\<lambda>f. page f = -1) (frames p)"

definition hasPage :: "Partition \<Rightarrow> int \<Rightarrow> bool" where
  "hasPage p pg = list_ex (\<lambda>f. page f = pg) (frames p)"

definition set_pframe :: "nat \<Rightarrow> (Frame \<Rightarrow> Frame) \<Rightarrow> Partition \<Rightarrow> Partition" where
  "set_pframe it f p = p\<lparr>frames := (frames p)[it := f (frames p ! it)]\<rparr>"

text \<open>The helpers that call \<open>getCurrentTime()\<close> take the static counter \<open>tc\<close> and return
  its new value with the partition.\<close>

definition updateLRU :: "Partition \<Rightarrow> int \<Rightarrow> int \<Rightarrow> Partition \<times> int" where
  "updateLRU p pg tc =
     (case find_if (\<lambda>f. page f = pg) (frames p) of
        Some it \<Rightarrow> (set_pframe it (\<lambda>f. f\<lparr>lastUsed := tc + 1\<rparr>) p, tc + 1)
      | None \<Rightarrow> (p, tc))"

definition updateLFU :: "Partition \<Rightarrow> int \<Rightarrow> Partition" where
  "updateLFU p pg =
     (case find_if (\<lambda>f. page f = pg) (frames p) of
        Some it \<Rightarrow> set_pframe it (\<lambda>f. f\<lparr>frequency := frequency f + 1\<rparr>) p
      | None \<Rightarrow> p)"

definition clear_frame :: "nat \<Rightarrow> Frame \<Rightarrow> Frame" where
  "clear_frame now f = f\<lparr>page := -1, frequency := 0, lastUsed := 0, extra := 0, time := now\<rparr>"

definition removeFromPartition :: "Partition \<Rightarrow> int \<Rightarrow> nat \<Rightarrow> Partition" where
  "removeFromPartition p pg now =
     (case find_if (\<lambda>f. page f = pg) (frames p) of
        Some it \<Rightarrow> set_pframe it (clear_frame now) p
      | None \<Rightarrow> p)"

definition insertIntoPartition :: "Partition \<Rightarrow> int \<Rightarrow> int \<Rightarrow> Partition \<times> int" where
  "insertIntoPartition p pg tc =
     (case find_if (\<lambda>f. page f = -1) (frames p) of
        Some it \<Rightarrow> (set_pframe it (\<lambda>f. f\<lparr>page := pg, lastUsed := tc + 1, frequency := 1\<rparr>) p, tc + 1)
      | None \<Rightarrow> (p, tc))"

text \<open>\<open>evictLFU\<close> and \<open>demoteLRU\<close> return the page that left the partition.\<close>

definition evictLFU :: "Partition \<Rightarrow> nat \<Rightarrow> int \<times> Partition" where
  "evictLFU p now =
     (case min_element lfu_less (frames p) of
        Some victimIt \<Rightarrow> (page (frames p ! victimIt), set_pframe victimIt (clear_frame now) p)
      | None \<Rightarrow> (-1, p))"

definition demoteLRU :: "Partition \<Rightarrow> nat \<Rightarrow> int \<times> Partition" where
  "demoteLRU p now =
     (case min_element (\<lambda>a b. lastUsed a < lastUsed b) (frames p) of
        Some victimIt \<Rightarrow> (page (frames p ! victimIt), set_pframe victimIt (clear_frame now) p)
      | None \<Rightarrow> (-1, p))"

text \<open>The demotion block shared by the promotion path of \<open>lfru\<close> and by
  \<open>handlePageInsertion\<close>: demote the LRU frame of the privileged partition into the
  unprivileged one, evicting there first when it is full.\<close>

definition demote_into :: "LFRUData \<Rightarrow> int \<Rightarrow> nat \<Rightarrow> LFRUData \<times> int" where
  "demote_into lf tc now =
     (let (demotedPage, priv) = demoteLRU (privileged lf) now;
          unpriv = (if \<not> hasSpace (unprivileged lf) then snd (evictLFU (unprivileged lf) now)
                    else unprivileged lf);
          (unpriv', tc') = insertIntoPartition unpriv demotedPage tc
      in (lf\<lparr>privileged := priv, unprivileged := unpriv'\<rparr>, tc'))"

definition handlePageInsertion :: "LFRUData \<Rightarrow> int \<Rightarrow> int \<Rightarrow> nat \<Rightarrow> LFRUData \<times> int" where
  "handlePageInsertion lf pg tc now =
     (if hasSpace (privileged lf) then
        (let (priv, tc') = insertIntoPartition (privileged lf) pg tc
         in (lf\<lparr>privileged := priv\<rparr>, tc'))
      else
        (let (lf1, tc1) = demote_into lf tc now;
             (priv, tc2) = insertIntoPartition (privileged lf1) pg tc1
         in (lf1\<lparr>privileged := priv\<rparr>, tc2)))"

definition lfru :: "int \<Rightarrow> int \<Rightarrow> nat \<Rightarrow> AlgorithmData \<Rightarrow> bool \<times> AlgorithmData \<times> int" where
  "lfru ref tc now d =
     (let lf = (case lfruData d of None \<Rightarrow> mkLFRUData now | Some l \<Rightarrow> l) in
      if hasPage (privileged lf) ref then
        (let (priv, tc') = updateLRU (privileged lf) ref tc
         in (False, d\<lparr>lfruData := Some (lf\<lparr>privileged := priv\<rparr>)\<rparr>, tc'))
      else if hasPage (unprivileged lf) ref then
        (let lf0 = lf\<lparr>unprivileged := removeFromPartition (unprivileged lf) ref now\<rparr>;
             (lf1, tc1) = (if \<not> hasSpace (privileged lf0) then demote_into lf0 tc now
                           else (lf0, tc));
             (priv, tc2) = insertIntoPartition (privileged lf1) ref tc1
         in (False, d\<lparr>lfruData := Some (lf1\<lparr>privileged := priv\<rparr>)\<rparr>, tc2))
      else
        (let (lf', tc') = handlePageInsertion lf ref tc now
         in (True, d\<lparr>lfruData := Some lf'\<rparr>, tc')))"

section \<open>The engine\<close>

text \<open>
  \<open>invoke\<close> is the call \<open>algoPtr->algoFunc(*algoPtr->data)\<close>: the lambda stored by
  \<open>initializeAlgorithms\<close> calls the member function of the same name, which reads the
  simulator's members and the environment. The result carries the new environment.
\<close>

definition invoke :: "Policy \<Rightarrow> Sim \<Rightarrow> AlgorithmData \<Rightarrow> (bool \<times> AlgorithmData \<times> Env) option" where
  "invoke pol s d =
     (let e = env s;
          now = steadyClock e (clockReads e);
          e1 = e\<lparr>clockReads := clockReads e + 1\<rparr>
      in case pol of
           OPTIMAL \<Rightarrow>
             map_option (\<lambda>(fault, d'). (fault, d', e1))
               (optimal (pageRefs s) (counter s) (lastPageRef s) now d)
         | RANDOM \<Rightarrow>
             map_option (\<lambda>(fault, d', pos). (fault, d', e1\<lparr>rngPos := pos\<rparr>))
               (random_repl (numFrames s) (counter s) (lastPageRef s) now (rngDraws e) (rngPos e) d)
         | FIFO \<Rightarrow> (case fifo (counter s) (lastPageRef s) now d of (fault, d') \<Rightarrow> Some (fault, d', e1))
         | LRU \<Rightarrow> (case lru (counter s) (lastPageRef s) now d of (fault, d') \<Rightarrow> Some (fault, d', e1))
         | CLOCK \<Rightarrow>
             map_option (\<lambda>(fault, d', hand). (fault, d', e1\<lparr>clockHand := hand\<rparr>))
               (clock (numFrames s) (lastPageRef s) (clockHand e) d)
         | NFU \<Rightarrow> (case nfu (lastPageRef s) now d of (fault, d') \<Rightarrow> Some (fault, d', e1))
         | AGING \<Rightarrow> (case aging (lastPageRef s) now d of (fault, d') \<Rightarrow> Some (fault, d', e1))
         | MRU \<Rightarrow> (case mru (lastPageRef s) now d of (fault, d') \<Rightarrow> Some (fault, d', e1))
         | NRU \<Rightarrow> (case nru (lastPageRef s) now d of (fault, d') \<Rightarrow> Some (fault, d', e1))
         | MFU \<Rightarrow> (case mfu (lastPageRef s) d of (fault, d') \<Rightarrow> Some (fault, d', e1))
         | LFU \<Rightarrow>
             (case lfu (lastPageRef s) (timeCounter e) d of
                (fault, d', tc) \<Rightarrow> Some (fault, d', e1\<lparr>timeCounter := tc\<rparr>))
         | LFRU \<Rightarrow>
             (case lfru (lastPageRef s) (timeCounter e) now d of
                (fault, d', tc) \<Rightarrow> Some (fault, d', e1\<lparr>timeCounter := tc\<rparr>)))"

text \<open>
  The body of \<open>processPageReference\<close>: the loop over \<open>algorithms\<close>. The engine, not the
  policy, increments \<open>misses\<close> or \<open>hits\<close> from the returned flag. Timing and printing
  are left out.
\<close>

fun run_algorithms :: "Algorithm list \<Rightarrow> Sim \<Rightarrow> (Algorithm list \<times> Sim) option" where
  "run_algorithms [] s = Some ([], s)"
| "run_algorithms (a # rest) s =
     (if \<not> selected a then
        map_option (\<lambda>(rest', s'). (a # rest', s')) (run_algorithms rest s)
      else
        (case invoke (algoFunc a) s (data a) of
           None \<Rightarrow> None
         | Some (fault, d', e') \<Rightarrow>
             (let d'' = (if fault then d'\<lparr>misses := misses d' + 1\<rparr> else d'\<lparr>hits := hits d' + 1\<rparr>)
              in map_option (\<lambda>(rest', s'). (a\<lparr>data := d''\<rparr> # rest', s'))
                   (run_algorithms rest (s\<lparr>env := e'\<rparr>)))))"

definition processPageReference :: "int \<Rightarrow> Sim \<Rightarrow> Sim option" where
  "processPageReference pageRef s =
     (let s0 = s\<lparr>lastPageRef := pageRef\<rparr>
      in map_option (\<lambda>(algs, s'). s'\<lparr>algorithms := algs\<rparr>) (run_algorithms (algorithms s0) s0))"


lemma run_algorithms_frame:
  "run_algorithms algs s = Some (algs', s') \<Longrightarrow>
   pageRefs s' = pageRefs s \<and> counter s' = counter s \<and> maxPageCalls s' = maxPageCalls s \<and>
   numFrames s' = numFrames s \<and> lastPageRef s' = lastPageRef s"
proof (induction algs arbitrary: s algs' s')
  case Nil
  then show ?case by simp
next
  case (Cons a rest)
  show ?case
  proof (cases "selected a")
    case False
    with Cons.prems obtain r where "run_algorithms rest s = Some (r, s')"
      by (auto split: option.splits)
    with Cons.IH show ?thesis by blast
  next
    case True
    with Cons.prems obtain e' r where
      "run_algorithms rest (s\<lparr>env := e'\<rparr>) = Some (r, s')"
      by (auto split: option.splits simp: Let_def)
    from Cons.IH [OF this] show ?thesis by simp
  qed
qed

lemma processPageReference_frame:
  "processPageReference pageRef s = Some s' \<Longrightarrow>
   pageRefs s' = pageRefs s \<and> counter s' = counter s \<and> maxPageCalls s' = maxPageCalls s \<and>
   numFrames s' = numFrames s"
  unfolding processPageReference_def
  by (auto simp: Let_def dest!: run_algorithms_frame)

text \<open>
  The \<open>for\<close> loop of \<open>runSimulation\<close>. \<open>pageRefs[counter]\<close> with a negative counter would
  be undefined; the loop starts at \<open>0\<close>.
\<close>

function run_loop :: "Sim \<Rightarrow> Sim option" where
  "run_loop s =
     (if counter s < maxPageCalls s \<and> counter s < int (length (pageRefs s)) then
        (if counter s < 0 then None
         else case processPageReference (pageNum (pageRefs s ! nat (counter s))) s of
                None \<Rightarrow> None
              | Some s' \<Rightarrow> run_loop (s'\<lparr>counter := counter s' + 1\<rparr>))
      else Some s)"
  by pat_completeness auto

termination run_loop
proof (relation "measure (\<lambda>s. nat (int (length (pageRefs s)) - counter s))", goal_cases)
  case 1
  show ?case by simp
next
  case (2 s s')
  from processPageReference_frame [OF 2(3)] 2(1) show ?case by simp
qed

declare run_loop.simps [simp del]

text \<open>
  \<open>runSimulation\<close> up to the end of the loop. Afterwards the source sorts the vector of
  algorithms by hit ratio (a floating-point key) and prints the summaries; the sort
  permutes the vector and changes no \<open>Algorithm\<close> object, so algorithms are addressed
  here by their position before the sort.
\<close>

definition runSimulation :: "Sim \<Rightarrow> Sim option" where
  "runSimulation s =
     run_loop (s\<lparr>counter := 0,
                 maxPageCalls := min (maxPageCalls s) (int (length (pageRefs s)))\<rparr>)"

definition policy_table :: "(string \<times> Policy) list" where
  "policy_table =
     [(''OPTIMAL'', OPTIMAL), (''RANDOM'', RANDOM), (''FIFO'', FIFO), (''LRU'', LRU),
      (''CLOCK'', CLOCK), (''NFU'', NFU), (''AGING'', AGING), (''MRU'', MRU),
      (''NRU'', NRU), (''MFU'', MFU), (''LFU'', LFU), (''LFRU'', LFRU)]"

definition mkAlgorithm :: "int \<Rightarrow> nat \<Rightarrow> string \<times> Policy \<Rightarrow> Algorithm" where
  "mkAlgorithm nFrames now np =
     \<lparr>label = fst np, algoFunc = snd np, selected = False,
      data = (let d = mkAlgorithmData nFrames now
              in if fst np = ''LFRU'' then d\<lparr>lfruData := Some (mkLFRUData now)\<rparr> else d)\<rparr>"

definition initializeAlgorithms :: "Sim \<Rightarrow> Sim" where
  "initializeAlgorithms s =
     (let e = env s; now = steadyClock e (clockReads e)
      in s\<lparr>algorithms := map (mkAlgorithm (numFrames s) now) policy_table,
            env := e\<lparr>clockReads := clockReads e + 1\<rparr>\<rparr>)"

text \<open>The constructor, in a process whose environment is \<open>e\<close>.\<close>

definition newSimulator :: "Env \<Rightarrow> Sim" where
  "newSimulator e =
     initializeAlgorithms
       \<lparr>numFrames = 12, pageRefUpperBound = 1048576, maxPageCalls = 1000, debug = False,
        printRefs = False, counter = 0, lastPageRef = -1, pageRefs = [], algorithms = [],
        env = e\<rparr>"

definition setConfiguration :: "int \<Rightarrow> int \<Rightarrow> bool \<Rightarrow> bool \<Rightarrow> Sim \<Rightarrow> Sim" where
  "setConfiguration nframes maxCalls debugMode printRefsMode s =
     initializeAlgorithms
       (s\<lparr>numFrames := max 1 nframes, maxPageCalls := maxCalls, debug := debugMode,
          printRefs := printRefsMode\<rparr>)"

datatype error = InvalidArgument

definition deselect_all :: "Algorithm list \<Rightarrow> Algorithm list" where
  "deselect_all algs = map (\<lambda>a. a\<lparr>selected := False\<rparr>) algs"

definition select_at :: "nat \<Rightarrow> Algorithm list \<Rightarrow> Algorithm list" where
  "select_at k algs = algs[k := (algs ! k)\<lparr>selected := True\<rparr>]"

text \<open>
  \<open>selectAlgorithm\<close> throws \<open>std::invalid_argument\<close> on an unknown code. The exception
  leaves the object as the first loop made it, so the error carries that simulator.
\<close>

definition selectAlgorithm :: "char \<Rightarrow> Sim \<Rightarrow> (error \<times> Sim) + Sim" where
  "selectAlgorithm algoCode s =
     (let algs = deselect_all (algorithms s);
          pick = (\<lambda>k. Inr (s\<lparr>algorithms := select_at k algs\<rparr>))
      in if algoCode = CHR ''O'' then pick 0
         else if algoCode = CHR ''R'' then pick 1
         else if algoCode = CHR ''F'' then pick 2
         else if algoCode = CHR ''L'' then pick 3
         else if algoCode = CHR ''C'' then pick 4
         else if algoCode = CHR ''N'' then pick 5
         else if algoCode = CHR ''A'' then pick 6
         else if algoCode = CHR ''M'' then pick 7
         else if algoCode = CHR ''n'' then pick 8
         else if algoCode = CHR ''m'' then pick 9
         else if algoCode = CHR ''l'' then pick 10
         else if algoCode = CHR ''f'' then pick 11
         else if algoCode = CHR ''a'' then
           Inr (s\<lparr>algorithms := map (\<lambda>a. a\<lparr>selected := True\<rparr>) algs\<rparr>)
         else Inl (InvalidArgument, s\<lparr>algorithms := algs\<rparr>))"

section \<open>The command-line front end (main.cpp)\<close>

text \<open>The checks of \<open>validateArguments\<close> on the algorithm code and the frame count
  (already parsed): the error message, if any.\<close>

definition validateArguments :: "char \<Rightarrow> int \<Rightarrow> string option" where
  "validateArguments algoCode nframes =
     (if algoCode \<notin> set ''ORFLCNAMnmlfa'' then Some ''Invalid algorithm code''
      else if nframes < 1 then Some ''Number of frames must be at least 1''
      else if nframes > 1000 then Some ''Number of frames too large (max 1000)''
      else None)"

text \<open>The block "Validate frame count for LFRU" of \<open>main\<close>: the frame count passed
  on, and whether the warning was printed.\<close>

definition adjustFrames :: "char \<Rightarrow> int \<Rightarrow> int \<times> bool" where
  "adjustFrames algorithmCode nframes =
     (let totalLFRUFrames = PRIVILEGED_PARTITION_SIZE + UNPRIVILEGED_PARTITION_SIZE
      in if (algorithmCode = CHR ''f'' \<or> algorithmCode = CHR ''a'') \<and> nframes < totalLFRUFrames
         then (totalLFRUFrames, True) else (nframes, False))"

text \<open>\<open>main\<close> up to the configured simulator: an error message, or the warning flag and
  the simulator.\<close>

definition main_configure :: "Env \<Rightarrow> char \<Rightarrow> int \<Rightarrow> bool \<Rightarrow> bool \<Rightarrow> string + (bool \<times> Sim)" where
  "main_configure e algorithmCode nframes showRefs debugFlag =
     (case validateArguments algorithmCode nframes of
        Some msg \<Rightarrow> Inl msg
      | None \<Rightarrow>
          (let (n, warned) = adjustFrames algorithmCode nframes
           in Inr (warned, setConfiguration n 1000 debugFlag showRefs (newSimulator e))))"


section \<open>Facts about the helpers\<close>

lemma find_if_None: "find_if P xs = None \<longleftrightarrow> (\<forall>x \<in> set xs. \<not> P x)"
  by (induction xs) auto

lemma find_if_Some:
  "find_if P xs = Some i \<Longrightarrow> i < length xs \<and> P (xs ! i) \<and> (\<forall>j < i. \<not> P (xs ! j))"
proof (induction xs arbitrary: i)
  case Nil
  then show ?case by simp
next
  case (Cons x xs)
  show ?case
  proof (cases "P x")
    case True
    with Cons.prems show ?thesis by simp
  next
    case False
    with Cons.prems obtain k where k: "find_if P xs = Some k" "i = Suc k"
      by auto
    from Cons.IH [OF k(1)] False k(2) show ?thesis
      by (auto simp: less_Suc_eq_0_disj)
  qed
qed

lemma find_if_map: "find_if P (map f xs) = find_if (\<lambda>x. P (f x)) xs"
  by (induction xs) auto

lemma fold_pick_bound:
  "b < n \<Longrightarrow> \<forall>i \<in> set is. i < n \<Longrightarrow> fold (\<lambda>i b. if Q i b then i else b) is b < n"
  by (induction "is" arbitrary: b) auto

lemma min_element_Some: "min_element cmp xs = Some i \<Longrightarrow> i < length xs"
  unfolding min_element_def
  by (auto split: if_splits intro!: fold_pick_bound)

lemma max_element_Some: "max_element cmp xs = Some i \<Longrightarrow> i < length xs"
  unfolding max_element_def
  by (auto split: if_splits intro!: fold_pick_bound)

lemma min_element_None: "min_element cmp xs = None \<longleftrightarrow> xs = []"
  by (simp add: min_element_def)

lemma max_element_None: "max_element cmp xs = None \<longleftrightarrow> xs = []"
  by (simp add: max_element_def)


section \<open>Concrete inputs used by the witnesses\<close>

definition example_env :: Env where
  "example_env = \<lparr>timeCounter = 0, clockHand = 0, rngDraws = (\<lambda>k. 0), rngPos = 0,
                   steadyClock = (\<lambda>k. k), clockReads = 0\<rparr>"

definition example_data :: "(int \<times> int) list \<Rightarrow> AlgorithmData" where
  "example_data pes =
     \<lparr>hits = 0, misses = 0,
      pageTable = map (\<lambda>(i, (p, e)). \<lparr>index = int i, page = p, time = 0, extra = e,
                                        frequency = 0, lastUsed = 0\<rparr>) (enumerate 0 pes),
      victimList = [], lfruData = None\<rparr>"

section \<open>C4: a FIFO hit changes nothing\<close>

text \<open>
  Claim C4. Whenever the requested page is resident in the FIFO page table, the FIFO step
  returns Hit (\<open>False\<close>) and returns the policy data unchanged: no field of any frame
  (page, time, extra, frequency, lastUsed) is written, and the victim log is untouched.
\<close>

theorem fifo_hit_is_noop:
  "ref \<in> set (map page (pageTable d)) \<Longrightarrow> fifo cnt ref now d = (False, d)"
proof -
  assume "ref \<in> set (map page (pageTable d))"
  then have "find_if (\<lambda>f. page f = ref) (pageTable d) \<noteq> None"
    by (auto simp: find_if_None)
  then show ?thesis
    by (auto simp: fifo_def)
qed

theorem fifo_hit_is_noop_witness:
  "7 \<in> set (map page (pageTable (example_data [(3, 0), (7, 1)]))) \<and>
   fifo 5 7 9 (example_data [(3, 0), (7, 1)]) = (False, example_data [(3, 0), (7, 1)])"
proof -
  have h: "7 \<in> set (map page (pageTable (example_data [(3, 0), (7, 1)])))"
    by (simp add: example_data_def)
  from fifo_hit_is_noop [OF h] h show ?thesis by simp
qed

section \<open>C10: selection is not atomic on error\<close>

lemma deselect_all_idem: "deselect_all (deselect_all algs) = deselect_all algs"
  by (simp add: deselect_all_def)

text \<open>
  Claim C10. \<open>selectAlgorithm\<close> deselects every policy before it looks at the code: its
  result does not depend on the flags it found. For a code outside
  \<open>ORFLCNAMnmlfa\<close> it throws \<open>invalid_argument\<close> and leaves the simulator with every
  policy deselected; the previous selection is not restored.
\<close>

theorem selectAlgorithm_invalid_deselects:
  "selectAlgorithm algoCode s =
     selectAlgorithm algoCode (s\<lparr>algorithms := deselect_all (algorithms s)\<rparr>) \<and>
   (algoCode \<notin> set ''ORFLCNAMnmlfa'' \<longrightarrow>
      selectAlgorithm algoCode s =
        Inl (InvalidArgument, s\<lparr>algorithms := deselect_all (algorithms s)\<rparr>) \<and>
      (\<forall>a \<in> set (deselect_all (algorithms s)). \<not> selected a))"
proof (intro conjI impI)
  show "selectAlgorithm algoCode s =
        selectAlgorithm algoCode (s\<lparr>algorithms := deselect_all (algorithms s)\<rparr>)"
    by (simp add: selectAlgorithm_def Let_def deselect_all_idem split del: if_split cong: if_cong)
next
  assume "algoCode \<notin> set ''ORFLCNAMnmlfa''"
  then show "selectAlgorithm algoCode s =
        Inl (InvalidArgument, s\<lparr>algorithms := deselect_all (algorithms s)\<rparr>)"
    by (simp add: selectAlgorithm_def Let_def split del: if_split cong: if_cong)
next
  show "\<forall>a \<in> set (deselect_all (algorithms s)). \<not> selected a"
    by (simp add: deselect_all_def)
qed

theorem selectAlgorithm_invalid_deselects_witness:
  "CHR ''X'' \<notin> set ''ORFLCNAMnmlfa'' \<and>
   (\<exists>s. selectAlgorithm CHR ''a'' (newSimulator example_env) = Inr s \<and>
        list_all selected (algorithms s) \<and>
        selectAlgorithm CHR ''X'' s =
          Inl (InvalidArgument, s\<lparr>algorithms := deselect_all (algorithms s)\<rparr>) \<and>
        list_all (\<lambda>a. \<not> selected a) (deselect_all (algorithms s)))"
proof -
  have h: "CHR ''X'' \<notin> set ''ORFLCNAMnmlfa''" by simp
  obtain s where s: "selectAlgorithm CHR ''a'' (newSimulator example_env) = Inr s"
    by (simp add: selectAlgorithm_def)
  then have "list_all selected (algorithms s)"
    by (auto simp: selectAlgorithm_def list_all_iff)
  moreover from selectAlgorithm_invalid_deselects [of "CHR ''X''" s] h
  have "selectAlgorithm CHR ''X'' s =
          Inl (InvalidArgument, s\<lparr>algorithms := deselect_all (algorithms s)\<rparr>) \<and>
        (\<forall>a \<in> set (deselect_all (algorithms s)). \<not> selected a)"
    by blast
  then have "selectAlgorithm CHR ''X'' s =
          Inl (InvalidArgument, s\<lparr>algorithms := deselect_all (algorithms s)\<rparr>)"
    and "list_all (\<lambda>a. \<not> selected a) (deselect_all (algorithms s))"
    by (simp_all add: list_all_iff)
  ultimately show ?thesis using h s by blast
qed


section \<open>C5: the CLOCK victim search stays within one revolution\<close>

text \<open>\<open>evicts ref d d'\<close>: the step from \<open>d\<close> to \<open>d'\<close> logged exactly one victim, a frame of
  \<open>d\<close>, and wrote the requested page into that frame's slot; no other page changed.\<close>

definition evicts :: "int \<Rightarrow> AlgorithmData \<Rightarrow> AlgorithmData \<Rightarrow> bool" where
  "evicts ref d d' \<longleftrightarrow>
     (\<exists>v < length (pageTable d).
        map page (pageTable d') = (map page (pageTable d))[v := ref] \<and>
        (\<exists>x. victimList d' = victimList d @ [x] \<and> page x = page (pageTable d ! v))) \<and>
     hits d' = hits d \<and> misses d' = misses d \<and> lfruData d' = lfruData d"

lemma map_page_update:
  "map page (tbl[i := f (tbl ! i)]) = (map page tbl)[i := page (f (tbl ! i))]"
  by (simp add: map_update)

lemma map_update_same: "f y = f (xs ! i) \<Longrightarrow> map f (xs[i := y]) = map f xs"
proof (induction xs arbitrary: i)
  case Nil
  then show ?case by simp
next
  case (Cons x xs)
  then show ?case by (cases i) auto
qed

lemma evicts_set_frame:
  assumes "v < length (pageTable d)" "\<And>f. page (g f) = ref"
  shows "evicts ref d (set_frame v g (push_victim v d))"
  using assms unfolding evicts_def set_frame_def push_victim_def
  by (auto simp: map_update intro!: exI [of _ v])

lemma clock_search_revolution:
  assumes "0 < nFrames" "length (pageTable d) = nat nFrames" "0 \<le> hand" "hand < nFrames"
    and "0 < r" "(hand + int r) mod nFrames = start"
  shows "\<exists>returned d' hand' it.
           clock_search nFrames ref start d hand iters = Some (returned, d', hand', it) \<and>
           iters < it \<and> it \<le> iters + r \<and> 0 \<le> hand' \<and> hand' < nFrames \<and>
           (if returned then evicts ref d d'
            else hand' = start \<and> map page (pageTable d') = map page (pageTable d) \<and>
                 victimList d' = victimList d \<and> hits d' = hits d \<and> misses d' = misses d \<and>
                 lfruData d' = lfruData d)"
  using assms
proof (induction r arbitrary: d hand iters)
  case 0
  then show ?case by simp
next
  case (Suc r)
  let ?h = "nat hand"
  from Suc.prems have inr: "?h < length (pageTable d)" by simp
  have nh: "0 \<le> (hand + 1) mod nFrames" "(hand + 1) mod nFrames < nFrames"
    using Suc.prems(1) by simp_all
  let ?hand = "(hand + 1) mod nFrames"
  show ?case
  proof (cases "extra (pageTable d ! ?h) = 0")
    case True
    have "evicts ref d (set_frame ?h (\<lambda>f. f\<lparr>page := ref, extra := 1\<rparr>) (push_victim ?h d))"
      by (rule evicts_set_frame [OF inr]) simp
    moreover have "clock_search nFrames ref start d hand iters =
        Some (True, set_frame ?h (\<lambda>f. f\<lparr>page := ref, extra := 1\<rparr>) (push_victim ?h d),
              ?hand, iters + 1)"
      using True inr Suc.prems by (subst clock_search.simps) simp
    ultimately show ?thesis using nh by auto
  next
    case False
    let ?d = "set_frame ?h (\<lambda>f. f\<lparr>extra := 0\<rparr>) d"
    let ?hand = "(hand + 1) mod nFrames"
    have same: "map page (pageTable ?d) = map page (pageTable d)" "victimList ?d = victimList d"
      "hits ?d = hits d" "misses ?d = misses d" "lfruData ?d = lfruData d"
      "length (pageTable ?d) = length (pageTable d)"
      by (simp_all add: set_frame_def map_update_same)
    show ?thesis
    proof (cases "?hand = start")
      case True
      have "clock_search nFrames ref start d hand iters = Some (False, ?d, ?hand, iters + 1)"
        using True False inr Suc.prems by (subst clock_search.simps) (simp add: Let_def)
      with True nh same show ?thesis by auto
    next
      case ne: False
      have "r \<noteq> 0"
      proof
        assume "r = 0"
        with Suc.prems(6) have "(hand + 1) mod nFrames = start" by simp
        with ne show False by simp
      qed
      then have r: "0 < r" by simp
      have "(?hand + int r) mod nFrames = (hand + 1 + int r) mod nFrames"
        by (rule mod_add_left_eq)
      also have "hand + 1 + int r = hand + int (Suc r)" by simp
      finally have eq: "(?hand + int r) mod nFrames = start"
        using Suc.prems(6) by simp
      from Suc.IH [of ?d ?hand "iters + 1", OF Suc.prems(1) _ nh(1) nh(2) r eq]
        same(6) Suc.prems(2)
      obtain returned d' hand' it where
        res: "clock_search nFrames ref start ?d ?hand (iters + 1) = Some (returned, d', hand', it)"
          "iters + 1 < it" "it \<le> iters + 1 + r" "0 \<le> hand'" "hand' < nFrames"
          "if returned then evicts ref ?d d'
           else hand' = start \<and> map page (pageTable d') = map page (pageTable ?d) \<and>
                victimList d' = victimList ?d \<and> hits d' = hits ?d \<and> misses d' = misses ?d \<and>
                lfruData d' = lfruData ?d"
        by auto
      have ev: "evicts ref ?d d' \<Longrightarrow> evicts ref d d'"
        unfolding evicts_def using same inr
        by (auto simp: set_frame_def nth_list_update)
      from res ev same have post:
        "if returned then evicts ref d d'
         else hand' = start \<and> map page (pageTable d') = map page (pageTable d) \<and>
              victimList d' = victimList d \<and> hits d' = hits d \<and> misses d' = misses d \<and>
              lfruData d' = lfruData d"
        by (auto split: if_splits)
      have "clock_search nFrames ref start d hand iters = Some (returned, d', hand', it)"
        using False inr Suc.prems ne res(1)
        by (subst clock_search.simps) (simp add: Let_def)
      with res post show ?thesis by auto
    qed
  qed
qed


lemma clock_full_table:
  assumes "0 < nFrames" "length (pageTable d) = nat nFrames" "0 \<le> clockHand0"
    and "ref \<notin> set (map page (pageTable d))" "-1 \<notin> set (map page (pageTable d))"
  shows "\<exists>d' hand'. clock nFrames ref clockHand0 d = Some (True, d', hand') \<and>
           evicts ref d d' \<and> 0 \<le> hand' \<and> hand' < nFrames"
proof -
  define hand where "hand = (if clockHand0 \<ge> nFrames then 0 else clockHand0)"
  have hand: "0 \<le> hand" "hand < nFrames"
    using assms(1,3) by (auto simp: hand_def)
  have nohit: "find_if (\<lambda>f. page f = ref) (pageTable d) = None"
    and noempty: "find_if (\<lambda>f. page f = -1) (pageTable d) = None"
    using assms(4,5) by (force simp: find_if_None)+
  have "(hand + int (nat nFrames)) mod nFrames = hand"
    using hand assms(1) by simp
  from clock_search_revolution [OF assms(1,2) hand _ this, of ref 0] assms(1)
  obtain returned d1 hand1 it where
    cs: "clock_search nFrames ref hand d hand 0 = Some (returned, d1, hand1, it)"
    and h1: "0 \<le> hand1" "hand1 < nFrames"
    and post: "if returned then evicts ref d d1
           else hand1 = hand \<and> map page (pageTable d1) = map page (pageTable d) \<and>
                victimList d1 = victimList d \<and> hits d1 = hits d \<and> misses d1 = misses d \<and>
                lfruData d1 = lfruData d"
    by auto
  show ?thesis
  proof (cases returned)
    case True
    with cs nohit noempty have "clock nFrames ref clockHand0 d = Some (True, d1, hand1)"
      by (simp add: clock_def hand_def)
    with True post h1 show ?thesis by simp
  next
    case False
    let ?d = "set_frame (nat hand1) (\<lambda>f. f\<lparr>page := ref, extra := 1\<rparr>) (push_victim (nat hand1) d1)"
    from False post have same: "map page (pageTable d1) = map page (pageTable d)"
      "victimList d1 = victimList d" "hits d1 = hits d" "misses d1 = misses d"
      "lfruData d1 = lfruData d"
      by simp_all
    from same(1) have len: "length (pageTable d1) = length (pageTable d)"
      by (metis length_map)
    with h1 assms(2) have inr: "nat hand1 < length (pageTable d1)" by simp
    have "evicts ref d1 ?d"
      by (rule evicts_set_frame [OF inr]) simp
    then have ev: "evicts ref d ?d"
      unfolding evicts_def using same len
      by (metis nth_map)
    have "clock nFrames ref clockHand0 d = Some (True, ?d, (hand1 + 1) mod nFrames)"
      using cs nohit noempty False inr h1 by (simp add: clock_def hand_def)
    with ev assms(1) show ?thesis by simp
  qed
qed

text \<open>
  Claim C5. On a page table of \<open>F = numFrames\<close> frames with the hand inside the table,
  whatever the reference bits are, the victim-search loop of \<open>clock\<close> returns a result
  (it terminates without leaving the table) after at least one and at most \<open>F\<close>
  executions of its body; and on a full table that does not hold the requested page,
  \<open>clock\<close> reports a fault having logged one victim and installed the page in its slot.
\<close>

theorem clock_search_one_revolution:
  assumes "0 < nFrames" "length (pageTable d) = nat nFrames" "0 \<le> hand" "hand < nFrames"
    and "ref \<notin> set (map page (pageTable d))" "-1 \<notin> set (map page (pageTable d))"
  shows "(\<exists>returned d' hand' it.
            clock_search nFrames ref hand d hand 0 = Some (returned, d', hand', it) \<and>
            1 \<le> it \<and> it \<le> nat nFrames) \<and>
         (\<exists>d' hand'. clock nFrames ref hand d = Some (True, d', hand') \<and> evicts ref d d')"
proof
  have "(hand + int (nat nFrames)) mod nFrames = hand"
    using assms(1,3,4) by simp
  from clock_search_revolution [OF assms(1-4) _ this, of ref 0] assms(1)
  show "\<exists>returned d' hand' it.
            clock_search nFrames ref hand d hand 0 = Some (returned, d', hand', it) \<and>
            1 \<le> it \<and> it \<le> nat nFrames"
    by fastforce
next
  from clock_full_table [OF assms(1-3) assms(5,6)]
  show "\<exists>d' hand'. clock nFrames ref hand d = Some (True, d', hand') \<and> evicts ref d d'"
    by blast
qed

theorem clock_search_one_revolution_witness:
  "(0::int) < 2 \<and> length (pageTable (example_data [(3, 1), (7, 1)])) = nat 2 \<and>
   (0::int) \<le> 1 \<and> (1::int) < 2 \<and>
   5 \<notin> set (map page (pageTable (example_data [(3, 1), (7, 1)]))) \<and>
   -1 \<notin> set (map page (pageTable (example_data [(3, 1), (7, 1)]))) \<and>
   (\<exists>returned d' hand' it.
      clock_search 2 5 1 (example_data [(3, 1), (7, 1)]) 1 0 = Some (returned, d', hand', it) \<and>
      1 \<le> it \<and> it \<le> nat 2) \<and>
   (\<exists>d' hand'. clock 2 5 1 (example_data [(3, 1), (7, 1)]) = Some (True, d', hand') \<and>
      evicts 5 (example_data [(3, 1), (7, 1)]) d')"
proof -
  have h: "(0::int) < 2" "length (pageTable (example_data [(3, 1), (7, 1)])) = nat 2"
    "(0::int) \<le> 1" "(1::int) < 2"
    "5 \<notin> set (map page (pageTable (example_data [(3, 1), (7, 1)])))"
    "-1 \<notin> set (map page (pageTable (example_data [(3, 1), (7, 1)])))"
    by (simp_all add: example_data_def)
  from clock_search_one_revolution [OF h] h show ?thesis by blast
qed


section \<open>What one call of a table-based policy does to the page column\<close>

text \<open>
  \<open>tstep ref d fault d'\<close>: the call left the counters alone; if the requested page was in
  the table it reported a hit and no page moved; otherwise it reported a fault and wrote
  the page into exactly one slot, an empty one whenever the table had an empty slot.
\<close>

definition pages :: "AlgorithmData \<Rightarrow> int list" where
  "pages d = map page (pageTable d)"

definition tstep :: "int \<Rightarrow> AlgorithmData \<Rightarrow> bool \<Rightarrow> AlgorithmData \<Rightarrow> bool" where
  "tstep ref d fault d' \<longleftrightarrow>
     hits d' = hits d \<and> misses d' = misses d \<and> lfruData d' = lfruData d \<and>
     length (pageTable d') = length (pageTable d) \<and>
     (if ref \<in> set (pages d) then \<not> fault \<and> pages d' = pages d
      else fault \<and> (\<exists>i < length (pages d). pages d' = (pages d)[i := ref] \<and>
                       (-1 \<in> set (pages d) \<longrightarrow> pages d ! i = -1)))"

lemma find_if_page_Some:
  "find_if (\<lambda>f. page f = p) (pageTable d) = Some i \<Longrightarrow>
   i < length (pageTable d) \<and> pages d ! i = p \<and> p \<in> set (pages d)"
  by (drule find_if_Some) (auto simp: pages_def)

lemma find_if_page_None:
  "find_if (\<lambda>f. page f = p) (pageTable d) = None \<longleftrightarrow> p \<notin> set (pages d)"
  by (auto simp: find_if_None pages_def)

lemma tstep_hit:
  assumes "find_if (\<lambda>f. page f = ref) (pageTable d) = Some i" "\<And>f. page (g f) = page f"
  shows "tstep ref d False (set_frame i g d)"
  using find_if_page_Some [OF assms(1)] assms(2)
  by (simp add: tstep_def set_frame_def pages_def map_update_same)

lemma tstep_empty:
  assumes "find_if (\<lambda>f. page f = ref) (pageTable d) = None"
    "find_if (\<lambda>f. page f = -1) (pageTable d) = Some i" "\<And>f. page (g f) = ref"
  shows "tstep ref d True (set_frame i g d)"
  using find_if_page_Some [OF assms(2)] assms(1,3)
  by (auto simp: tstep_def set_frame_def find_if_page_None pages_def map_update)

lemma tstep_victim:
  assumes "find_if (\<lambda>f. page f = ref) (pageTable d) = None"
    "find_if (\<lambda>f. page f = -1) (pageTable d) = None" "v < length (pageTable d)"
    "\<And>f. page (g f) = ref"
  shows "tstep ref d True (set_frame v g (push_victim v d))"
  using assms
  by (auto simp: tstep_def set_frame_def push_victim_def find_if_page_None pages_def map_update)

lemma tstep_hit_same:
  assumes "find_if (\<lambda>f. page f = ref) (pageTable d) = Some i"
  shows "tstep ref d False d"
  using find_if_page_Some [OF assms] by (simp add: tstep_def)

lemma tstep_pages_cong:
  assumes "tstep ref d fault d'" "pages d = pages d0" "hits d = hits d0" "misses d = misses d0"
    "lfruData d = lfruData d0" "length (pageTable d) = length (pageTable d0)"
  shows "tstep ref d0 fault d'"
  using assms(1) unfolding tstep_def assms(2-6) by simp

lemmas tstep_intros = tstep_hit tstep_hit_same tstep_empty tstep_victim

lemma fifo_tstep:
  "pageTable d \<noteq> [] \<Longrightarrow> fifo cnt ref now d = (fault, d') \<Longrightarrow> tstep ref d fault d'"
  unfolding fifo_def
  by (auto split: option.splits simp: min_element_None
           intro!: tstep_intros dest: min_element_Some)

lemma lru_tstep:
  "pageTable d \<noteq> [] \<Longrightarrow> lru cnt ref now d = (fault, d') \<Longrightarrow> tstep ref d fault d'"
  unfolding lru_def
  by (auto split: option.splits simp: min_element_None
           intro!: tstep_intros dest: min_element_Some)

lemma nfu_tstep:
  "pageTable d \<noteq> [] \<Longrightarrow> nfu ref now d = (fault, d') \<Longrightarrow> tstep ref d fault d'"
  unfolding nfu_def
  by (auto split: option.splits simp: min_element_None
           intro!: tstep_intros dest: min_element_Some)

lemma mru_tstep:
  "pageTable d \<noteq> [] \<Longrightarrow> mru ref now d = (fault, d') \<Longrightarrow> tstep ref d fault d'"
  unfolding mru_def
  by (auto split: option.splits simp: max_element_None
           intro!: tstep_intros dest: max_element_Some)

lemma nru_tstep:
  "pageTable d \<noteq> [] \<Longrightarrow> nru ref now d = (fault, d') \<Longrightarrow> tstep ref d fault d'"
  unfolding nru_def
  by (auto split: option.splits simp: min_element_None
           intro!: tstep_intros dest: min_element_Some)

lemma mfu_tstep:
  "pageTable d \<noteq> [] \<Longrightarrow> mfu ref d = (fault, d') \<Longrightarrow> tstep ref d fault d'"
  unfolding mfu_def
  by (auto split: option.splits simp: max_element_None
           intro!: tstep_intros dest: max_element_Some)

lemma lfu_tstep:
  "pageTable d \<noteq> [] \<Longrightarrow> lfu ref tc d = (fault, d', tc') \<Longrightarrow> tstep ref d fault d'"
  unfolding lfu_def
  by (auto split: option.splits simp: min_element_None
           intro!: tstep_intros dest: min_element_Some)

lemma pages_age_frames: "map page (age_frames tbl) = map page tbl"
  by (simp add: age_frames_def)

lemma aging_tstep:
  assumes "pageTable d \<noteq> []" "aging ref now d = (fault, d')"
  shows "tstep ref d fault d'"
proof -
  let ?d = "d\<lparr>pageTable := age_frames (pageTable d)\<rparr>"
  have ne: "pageTable ?d \<noteq> []" using assms(1) by (simp add: age_frames_def)
  have "tstep ref ?d fault d'"
    using assms(2) ne unfolding aging_def Let_def
    by (auto split: option.splits simp: min_element_None
           intro!: tstep_intros dest: min_element_Some)
  then show ?thesis
    by (rule tstep_pages_cong) (simp_all add: pages_def pages_age_frames age_frames_def)
qed

lemma fold_pick_bound2:
  "snd b < n \<Longrightarrow> \<forall>i \<in> set is. i < n \<Longrightarrow>
   snd (fold (\<lambda>i (m, v). let x = g i in if x > m then (x, i) else (m, v)) is b) < n"
  by (induction "is" arbitrary: b) (auto simp: Let_def split: prod.splits)

lemma optimal_victim_bound: "tbl \<noteq> [] \<Longrightarrow> snd (optimal_victim refs cnt tbl) < length tbl"
  unfolding optimal_victim_def
  by (rule fold_pick_bound2) auto

lemma optimal_tstep:
  "pageTable d \<noteq> [] \<Longrightarrow> optimal refs cnt ref now d = Some (fault, d') \<Longrightarrow> tstep ref d fault d'"
  unfolding optimal_def Let_def
  by (auto split: option.splits if_splits intro!: tstep_intros optimal_victim_bound)

lemma optimal_total:
  "pageTable d \<noteq> [] \<Longrightarrow> \<exists>fault d'. optimal refs cnt ref now d = Some (fault, d')"
  unfolding optimal_def Let_def by (auto split: option.splits)

lemma random_tstep:
  "random_repl nF cnt ref now draws pos d = Some (fault, d', pos') \<Longrightarrow> tstep ref d fault d'"
  unfolding random_repl_def Let_def
  by (auto split: option.splits if_splits intro!: tstep_intros)

lemma random_total:
  assumes "0 < nF" "length (pageTable d) = nat nF"
  shows "\<exists>fault d' pos'. random_repl nF cnt ref now draws pos d = Some (fault, d', pos')"
proof -
  have "draws pos mod nat nF < nat nF" using assms(1) by simp
  then have "\<not> nat nF \<le> draws pos mod nat nF" by simp
  with assms show ?thesis
    unfolding random_repl_def Let_def by (auto split: option.splits)
qed


lemma evicts_tstep:
  assumes "evicts ref d d'" "ref \<notin> set (pages d)" "-1 \<notin> set (pages d)"
  shows "tstep ref d True d'"
proof -
  from assms(1) obtain v where v: "v < length (pageTable d)"
    "map page (pageTable d') = (map page (pageTable d))[v := ref]"
    and rest: "hits d' = hits d" "misses d' = misses d" "lfruData d' = lfruData d"
    unfolding evicts_def by blast
  from v(2) have "length (map page (pageTable d')) = length (map page (pageTable d))"
    by simp
  then have "length (pageTable d') = length (pageTable d)" by simp
  with v rest assms(2,3) show ?thesis
    unfolding tstep_def pages_def by auto
qed

lemma clock_tstep:
  assumes "0 < nF" "length (pageTable d) = nat nF" "0 \<le> h0"
  shows "\<exists>fault d' h'. clock nF ref h0 d = Some (fault, d', h') \<and> tstep ref d fault d' \<and> 0 \<le> h'"
proof (cases "find_if (\<lambda>f. page f = ref) (pageTable d)")
  case (Some i)
  let ?h = "if nF \<le> h0 then 0 else h0"
  have "clock nF ref h0 d = Some (False, set_frame i (\<lambda>f. f\<lparr>extra := 1\<rparr>) d, ?h)"
    using Some by (simp add: clock_def)
  moreover have "tstep ref d False (set_frame i (\<lambda>f. f\<lparr>extra := 1\<rparr>) d)"
    by (rule tstep_hit [OF Some]) simp
  moreover have "0 \<le> ?h" using assms(3) by simp
  ultimately show ?thesis by blast
next
  case None
  note nohit = this
  show ?thesis
  proof (cases "find_if (\<lambda>f. page f = -1) (pageTable d)")
    case (Some i)
    let ?h = "if nF \<le> h0 then 0 else h0"
    have "clock nF ref h0 d = Some (True, set_frame i (\<lambda>f. f\<lparr>page := ref, extra := 1\<rparr>) d, ?h)"
      using Some nohit by (simp add: clock_def)
    moreover have "tstep ref d True (set_frame i (\<lambda>f. f\<lparr>page := ref, extra := 1\<rparr>) d)"
      by (rule tstep_empty [OF nohit Some]) simp
    moreover have "0 \<le> ?h" using assms(3) by simp
    ultimately show ?thesis by blast
  next
    case None
    with nohit have no: "ref \<notin> set (pages d)" "-1 \<notin> set (pages d)"
      by (simp_all add: find_if_page_None)
    then have "ref \<notin> set (map page (pageTable d))" "-1 \<notin> set (map page (pageTable d))"
      by (simp_all add: pages_def)
    from clock_full_table [OF assms this]
    obtain d' hand' where r: "clock nF ref h0 d = Some (True, d', hand')" "evicts ref d d'"
      "0 \<le> hand'" by blast
    from evicts_tstep [OF r(2) no] r(1,3) show ?thesis by blast
  qed
qed

section \<open>What one call of LFRU does to the resident pages\<close>

text \<open>\<open>ppages\<close> is the multiset of page numbers (empty slots included, as \<open>-1\<close>) a
  partition holds.\<close>

definition ppages :: "Partition \<Rightarrow> int multiset" where
  "ppages p = mset (map page (frames p))"

lemma hasSpace_iff: "hasSpace p \<longleftrightarrow> -1 \<in># ppages p"
  by (force simp: hasSpace_def ppages_def list_ex_iff)

lemma hasPage_iff: "hasPage p pg \<longleftrightarrow> pg \<in># ppages p"
  by (force simp: hasPage_def ppages_def list_ex_iff)

lemma ppages_set_pframe:
  "it < length (frames p) \<Longrightarrow>
   ppages (set_pframe it g p) = add_mset (page (g (frames p ! it))) (ppages p - {#page (frames p ! it)#})"
  by (simp add: ppages_def set_pframe_def map_update mset_update)

lemma frames_set_pframe [simp]: "length (frames (set_pframe it g p)) = length (frames p)"
  by (simp add: set_pframe_def)

lemma page_in_ppages: "it < length (frames p) \<Longrightarrow> page (frames p ! it) \<in># ppages p"
  by (auto simp: ppages_def)

lemma updateLRU_ppages:
  assumes "updateLRU p pg tc = (p', tc')"
  shows "ppages p' = ppages p \<and> length (frames p') = length (frames p)"
proof (cases "find_if (\<lambda>f. page f = pg) (frames p)")
  case None
  with assms show ?thesis by (simp add: updateLRU_def)
next
  case (Some it)
  from find_if_Some [OF Some] have it: "it < length (frames p)" by simp
  from Some assms have p': "p' = set_pframe it (\<lambda>f. f\<lparr>lastUsed := tc + 1\<rparr>) p"
    by (auto simp: updateLRU_def)
  show ?thesis
    unfolding p' using page_in_ppages [OF it] by (simp add: ppages_set_pframe [OF it])
qed

lemma removeFromPartition_ppages:
  assumes "pg \<in># ppages p"
  shows "ppages (removeFromPartition p pg now) = add_mset (-1) (ppages p - {#pg#})"
proof (cases "find_if (\<lambda>f. page f = pg) (frames p)")
  case None
  with assms show ?thesis by (auto simp: find_if_None ppages_def)
next
  case (Some it)
  from find_if_Some [OF Some] have it: "it < length (frames p)" "page (frames p ! it) = pg"
    by simp_all
  show ?thesis
    using Some it(2) by (simp add: removeFromPartition_def ppages_set_pframe [OF it(1)] clear_frame_def)
qed

lemma removeFromPartition_length [simp]:
  "length (frames (removeFromPartition p pg now)) = length (frames p)"
  unfolding removeFromPartition_def by (simp split: option.splits)

lemma insertIntoPartition_ppages:
  assumes "-1 \<in># ppages p" "insertIntoPartition p pg tc = (p', tc')"
  shows "ppages p' = add_mset pg (ppages p - {#-1#}) \<and> length (frames p') = length (frames p)"
proof (cases "find_if (\<lambda>f. page f = -1) (frames p)")
  case None
  with assms(1) show ?thesis by (auto simp: find_if_None ppages_def)
next
  case (Some it)
  from find_if_Some [OF Some] have it: "it < length (frames p)" "page (frames p ! it) = -1"
    by simp_all
  from Some assms(2)
  have p': "p' = set_pframe it (\<lambda>f. f\<lparr>page := pg, lastUsed := tc + 1, frequency := 1\<rparr>) p"
    by (auto simp: insertIntoPartition_def)
  show ?thesis
    unfolding p' using it(2) by (simp add: ppages_set_pframe [OF it(1)])
qed

lemma evictLFU_ppages:
  assumes "frames p \<noteq> []" "evictLFU p now = (x, p')"
  shows "x \<in># ppages p \<and> ppages p' = add_mset (-1) (ppages p - {#x#}) \<and>
         length (frames p') = length (frames p)"
proof -
  from assms(1) obtain it where m: "min_element lfu_less (frames p) = Some it"
    by (cases "min_element lfu_less (frames p)") (auto simp: min_element_None)
  from min_element_Some [OF m] have it: "it < length (frames p)" .
  from m assms(2) have r: "x = page (frames p ! it)" "p' = set_pframe it (clear_frame now) p"
    by (simp_all add: evictLFU_def)
  show ?thesis
    unfolding r using page_in_ppages [OF it]
    by (simp add: ppages_set_pframe [OF it] clear_frame_def)
qed

lemma demoteLRU_ppages:
  assumes "frames p \<noteq> []" "demoteLRU p now = (x, p')"
  shows "x \<in># ppages p \<and> ppages p' = add_mset (-1) (ppages p - {#x#}) \<and>
         length (frames p') = length (frames p)"
proof -
  from assms(1) obtain it where m: "min_element (\<lambda>a b. lastUsed a < lastUsed b) (frames p) = Some it"
    by (cases "min_element (\<lambda>a b. lastUsed a < lastUsed b) (frames p)") (auto simp: min_element_None)
  from min_element_Some [OF m] have it: "it < length (frames p)" .
  from m assms(2) have r: "x = page (frames p ! it)" "p' = set_pframe it (clear_frame now) p"
    by (simp_all add: demoteLRU_def)
  show ?thesis
    unfolding r using page_in_ppages [OF it]
    by (simp add: ppages_set_pframe [OF it] clear_frame_def)
qed


text \<open>
  \<open>mstep ref M fault M'\<close> describes one policy call on the multiset of pages the
  container holds: a hit when the page is among them, and then nothing moves; otherwise a
  fault that replaces exactly one entry, an empty one (\<open>-1\<close>) whenever there is one.
\<close>

definition lpages :: "LFRUData \<Rightarrow> int multiset" where
  "lpages lf = ppages (privileged lf) + ppages (unprivileged lf)"

definition mstep :: "int \<Rightarrow> int multiset \<Rightarrow> bool \<Rightarrow> int multiset \<Rightarrow> bool" where
  "mstep ref M fault M' \<longleftrightarrow>
     (if ref \<in># M then \<not> fault \<and> M' = M
      else fault \<and> (\<exists>v. v \<in># M \<and> M' = add_mset ref (M - {#v#}) \<and> (-1 \<in># M \<longrightarrow> v = -1)))"

lemma ms_swap:
  "a \<in># P \<Longrightarrow> b \<in># U \<Longrightarrow> add_mset b (P - {#a#}) + add_mset a (U - {#b#}) = P + U"
proof -
  assume a: "a \<in># P" and b: "b \<in># U"
  have "add_mset b (P - {#a#}) + add_mset a (U - {#b#}) =
        add_mset a (P - {#a#}) + add_mset b (U - {#b#})"
    by simp
  also have "\<dots> = P + U" using a b by simp
  finally show ?thesis .
qed

lemma ms_move:
  "a \<in># P \<Longrightarrow> v \<in># U \<Longrightarrow>
   add_mset r (P - {#a#}) + add_mset a (U - {#v#}) = add_mset r (P + U - {#v#})"
proof -
  assume a: "a \<in># P" and v: "v \<in># U"
  have "add_mset r (P - {#a#}) + add_mset a (U - {#v#}) = add_mset r (add_mset a (P - {#a#}) + (U - {#v#}))"
    by simp
  also have "add_mset a (P - {#a#}) = P" using a by simp
  also have "P + (U - {#v#}) = P + U - {#v#}" using v by simp
  finally show ?thesis .
qed

lemma demote_into_ppages:
  assumes ne: "frames (privileged lf) \<noteq> []" "frames (unprivileged lf) \<noteq> []"
    and dm: "demote_into lf tc now = (lf1, tc1)"
  shows "\<exists>a v. a \<in># ppages (privileged lf) \<and>
           ppages (privileged lf1) = add_mset (-1) (ppages (privileged lf) - {#a#}) \<and>
           v \<in># ppages (unprivileged lf) \<and> (-1 \<in># ppages (unprivileged lf) \<longrightarrow> v = -1) \<and>
           ppages (unprivileged lf1) = add_mset a (ppages (unprivileged lf) - {#v#}) \<and>
           length (frames (privileged lf1)) = length (frames (privileged lf)) \<and>
           length (frames (unprivileged lf1)) = length (frames (unprivileged lf))"
proof -
  obtain a priv where de: "demoteLRU (privileged lf) now = (a, priv)"
    by (cases "demoteLRU (privileged lf) now")
  from demoteLRU_ppages [OF ne(1) de]
  have a: "a \<in># ppages (privileged lf)"
    "ppages priv = add_mset (-1) (ppages (privileged lf) - {#a#})"
    "length (frames priv) = length (frames (privileged lf))" by simp_all
  define un where "un = (if \<not> hasSpace (unprivileged lf) then snd (evictLFU (unprivileged lf) now)
                    else unprivileged lf)"
  obtain un' tc' where ins: "insertIntoPartition un a tc = (un', tc')"
    by (cases "insertIntoPartition un a tc")
  from dm de ins have lf1: "lf1 = lf\<lparr>privileged := priv, unprivileged := un'\<rparr>"
    by (simp add: demote_into_def un_def Let_def)
  show ?thesis
  proof (cases "hasSpace (unprivileged lf)")
    case True
    then have sp: "-1 \<in># ppages (unprivileged lf)" by (simp add: hasSpace_iff)
    from True have "un = unprivileged lf" by (simp add: un_def)
    with insertIntoPartition_ppages [OF _ ins] sp
    have "ppages un' = add_mset a (ppages (unprivileged lf) - {#-1#})"
      "length (frames un') = length (frames (unprivileged lf))" by simp_all
    with a sp show ?thesis unfolding lf1 by (intro exI [of _ a] exI [of _ "-1"]) simp
  next
    case False
    then have nsp: "-1 \<notin># ppages (unprivileged lf)" by (simp add: hasSpace_iff)
    obtain v u0 where ev: "evictLFU (unprivileged lf) now = (v, u0)"
      by (cases "evictLFU (unprivileged lf) now")
    from False ev have un: "un = u0" by (simp add: un_def)
    from evictLFU_ppages [OF ne(2) ev]
    have v: "v \<in># ppages (unprivileged lf)"
      "ppages u0 = add_mset (-1) (ppages (unprivileged lf) - {#v#})"
      "length (frames u0) = length (frames (unprivileged lf))" by simp_all
    from v(2) have "-1 \<in># ppages un" by (simp add: un)
    from insertIntoPartition_ppages [OF this ins] v un
    have "ppages un' = add_mset a (ppages (unprivileged lf) - {#v#})"
      "length (frames un') = length (frames (unprivileged lf))" by simp_all
    with a v(1) nsp show ?thesis unfolding lf1 by (intro exI [of _ a] exI [of _ v]) simp
  qed
qed


lemma lfru_mstep:
  assumes lf: "lfruData d = Some lf"
    and ne: "frames (privileged lf) \<noteq> []" "frames (unprivileged lf) \<noteq> []"
    and st: "lfru ref tc now d = (fault, d', tc')"
  shows "\<exists>lf'. lfruData d' = Some lf' \<and>
           length (frames (privileged lf')) = length (frames (privileged lf)) \<and>
           length (frames (unprivileged lf')) = length (frames (unprivileged lf)) \<and>
           hits d' = hits d \<and> misses d' = misses d \<and> pageTable d' = pageTable d \<and>
           mstep ref (lpages lf) fault (lpages lf')"
proof -
  let ?P = "ppages (privileged lf)" and ?U = "ppages (unprivileged lf)"
  show ?thesis
  proof (cases "hasPage (privileged lf) ref")
    case True
    obtain priv tc1 where up: "updateLRU (privileged lf) ref tc = (priv, tc1)"
      by (cases "updateLRU (privileged lf) ref tc")
    from updateLRU_ppages [OF up]
    have p: "ppages priv = ?P" "length (frames priv) = length (frames (privileged lf))"
      by simp_all
    from st lf True up
    have r: "fault = False" "d' = d\<lparr>lfruData := Some (lf\<lparr>privileged := priv\<rparr>)\<rparr>"
      by (simp_all add: lfru_def)
    from True have "ref \<in># lpages lf" by (simp add: hasPage_iff lpages_def)
    with p show ?thesis unfolding r by (simp add: mstep_def lpages_def)
  next
    case nopriv: False
    then have refP: "ref \<notin># ?P" by (simp add: hasPage_iff)
    show ?thesis
    proof (cases "hasPage (unprivileged lf) ref")
      case True
      then have refU: "ref \<in># ?U" by (simp add: hasPage_iff)
      let ?lf0 = "lf\<lparr>unprivileged := removeFromPartition (unprivileged lf) ref now\<rparr>"
      have U0: "ppages (unprivileged ?lf0) = add_mset (-1) (?U - {#ref#})"
        using removeFromPartition_ppages [OF refU] by simp
      obtain lf1 tc1 where dm: "(if \<not> hasSpace (privileged lf) then demote_into ?lf0 tc now
                           else (?lf0, tc)) = (lf1, tc1)"
        by (cases "if \<not> hasSpace (privileged lf) then demote_into ?lf0 tc now else (?lf0, tc)")
      obtain priv tc2 where ins: "insertIntoPartition (privileged lf1) ref tc1 = (priv, tc2)"
        by (cases "insertIntoPartition (privileged lf1) ref tc1")
      have "lfru ref tc now d = (False, d\<lparr>lfruData := Some (lf1\<lparr>privileged := priv\<rparr>)\<rparr>, tc2)"
        by (simp add: lfru_def lf nopriv True dm ins Let_def split del: if_split)
      with st have r: "fault = False" "d' = d\<lparr>lfruData := Some (lf1\<lparr>privileged := priv\<rparr>)\<rparr>"
        by simp_all
      have "\<exists>a. a \<in># ?P \<and> ppages (privileged lf1) = add_mset (-1) (?P - {#a#}) \<and>
                ppages (unprivileged lf1) = add_mset a (?U - {#ref#}) \<and>
                length (frames (privileged lf1)) = length (frames (privileged lf)) \<and>
                length (frames (unprivileged lf1)) = length (frames (unprivileged lf))"
      proof (cases "hasSpace (privileged lf)")
        case True
        with dm have "lf1 = ?lf0" by simp
        moreover from True have "-1 \<in># ?P" by (simp add: hasSpace_iff)
        ultimately show ?thesis using U0 by (intro exI [of _ "-1"]) simp
      next
        case False
        with dm have dm': "demote_into ?lf0 tc now = (lf1, tc1)" by simp
        have "length (frames (unprivileged ?lf0)) = length (frames (unprivileged lf))"
          by simp
        with ne(2) have "frames (unprivileged ?lf0) \<noteq> []"
          by (metis length_0_conv)
        with ne(1) have ne0: "frames (privileged ?lf0) \<noteq> []" "frames (unprivileged ?lf0) \<noteq> []"
          by simp_all
        from demote_into_ppages [OF ne0 dm'] U0
        obtain a v where av: "a \<in># ?P" "ppages (privileged lf1) = add_mset (-1) (?P - {#a#})"
          "v = -1" "ppages (unprivileged lf1) = add_mset a (add_mset (-1) (?U - {#ref#}) - {#v#})"
          "length (frames (privileged lf1)) = length (frames (privileged lf))"
          "length (frames (unprivileged lf1)) = length (frames (unprivileged lf))"
          by auto
        then show ?thesis by (intro exI [of _ a]) simp
      qed
      then obtain a where a: "a \<in># ?P" "ppages (privileged lf1) = add_mset (-1) (?P - {#a#})"
        "ppages (unprivileged lf1) = add_mset a (?U - {#ref#})"
        "length (frames (privileged lf1)) = length (frames (privileged lf))"
        "length (frames (unprivileged lf1)) = length (frames (unprivileged lf))"
        by blast
      from a(2) have "-1 \<in># ppages (privileged lf1)" by simp
      from insertIntoPartition_ppages [OF this ins] a(2,4)
      have p: "ppages priv = add_mset ref (?P - {#a#})"
        "length (frames priv) = length (frames (privileged lf))" by simp_all
      have "lpages (lf1\<lparr>privileged := priv\<rparr>) = lpages lf"
        using ms_swap [OF a(1) refU] by (simp add: lpages_def p a(3))
      moreover have "ref \<in># lpages lf" using refU by (simp add: lpages_def)
      ultimately show ?thesis unfolding r using p(2) a(5) by (simp add: mstep_def)
    next
      case False
      then have refU: "ref \<notin># ?U" by (simp add: hasPage_iff)
      obtain lf' tc1 where hp: "handlePageInsertion lf ref tc now = (lf', tc1)"
        by (cases "handlePageInsertion lf ref tc now")
      from st lf nopriv False hp
      have r: "fault = True" "d' = d\<lparr>lfruData := Some lf'\<rparr>"
        by (simp_all add: lfru_def Let_def)
      have notin: "ref \<notin># lpages lf" using refP refU by (simp add: lpages_def)
      have "\<exists>v. v \<in># lpages lf \<and> lpages lf' = add_mset ref (lpages lf - {#v#}) \<and>
                (-1 \<in># lpages lf \<longrightarrow> v = -1) \<and>
                length (frames (privileged lf')) = length (frames (privileged lf)) \<and>
                length (frames (unprivileged lf')) = length (frames (unprivileged lf))"
      proof (cases "hasSpace (privileged lf)")
        case True
        then have sp: "-1 \<in># ?P" by (simp add: hasSpace_iff)
        obtain priv tc2 where ins: "insertIntoPartition (privileged lf) ref tc = (priv, tc2)"
          by (cases "insertIntoPartition (privileged lf) ref tc")
        from hp True ins have lf': "lf' = lf\<lparr>privileged := priv\<rparr>"
          by (simp add: handlePageInsertion_def)
        from insertIntoPartition_ppages [OF sp ins]
        have p: "ppages priv = add_mset ref (?P - {#-1#})"
          "length (frames priv) = length (frames (privileged lf))" by simp_all
        show ?thesis unfolding lf' using sp p
          by (intro exI [of _ "-1"]) (simp add: lpages_def)
      next
        case False
        then have nsp: "-1 \<notin># ?P" by (simp add: hasSpace_iff)
        obtain lf1 tc1' where dm: "demote_into lf tc now = (lf1, tc1')"
          by (cases "demote_into lf tc now")
        obtain priv tc2 where ins: "insertIntoPartition (privileged lf1) ref tc1' = (priv, tc2)"
          by (cases "insertIntoPartition (privileged lf1) ref tc1'")
        from hp False dm ins have lf': "lf' = lf1\<lparr>privileged := priv\<rparr>"
          by (simp add: handlePageInsertion_def)
        from demote_into_ppages [OF ne dm]
        obtain a v where av: "a \<in># ?P" "ppages (privileged lf1) = add_mset (-1) (?P - {#a#})"
          "v \<in># ?U" "-1 \<in># ?U \<longrightarrow> v = -1"
          "ppages (unprivileged lf1) = add_mset a (?U - {#v#})"
          "length (frames (privileged lf1)) = length (frames (privileged lf))"
          "length (frames (unprivileged lf1)) = length (frames (unprivileged lf))"
          by blast
        from av(2) have "-1 \<in># ppages (privileged lf1)" by simp
        from insertIntoPartition_ppages [OF this ins] av(2,6)
        have p: "ppages priv = add_mset ref (?P - {#a#})"
          "length (frames priv) = length (frames (privileged lf))" by simp_all
        have "lpages lf' = add_mset ref (lpages lf - {#v#})"
          unfolding lf' using ms_move [OF av(1,3), of ref] by (simp add: lpages_def p av(5))
        moreover have "v \<in># lpages lf" using av(3) by (simp add: lpages_def)
        moreover have "-1 \<in># lpages lf \<longrightarrow> v = -1" using nsp av(4) by (simp add: lpages_def)
        ultimately show ?thesis unfolding lf' using p(2) av(7) by (intro exI [of _ v]) simp
      qed
      with notin show ?thesis unfolding r by (auto simp: mstep_def)
    qed
  qed
qed


section \<open>The engine, one pass and the whole loop\<close>

text \<open>
  \<open>bump\<close> is the engine's accounting after a call. \<open>resident\<close> is the multiset of page
  numbers in a policy's container: the page table, or for LFRU the two partitions
  together. \<open>wf_alg\<close> and \<open>wf_sim\<close> say that the tables have \<open>numFrames\<close> frames, the
  LFRU partitions exist and are not empty, and the static hand is not negative; the
  constructors establish this and every pass keeps it.
\<close>

definition bump :: "bool \<Rightarrow> AlgorithmData \<Rightarrow> AlgorithmData" where
  "bump fault d = (if fault then d\<lparr>misses := misses d + 1\<rparr> else d\<lparr>hits := hits d + 1\<rparr>)"

definition resident :: "Algorithm \<Rightarrow> int multiset" where
  "resident a =
     (if algoFunc a = LFRU
      then lpages (case lfruData (data a) of None \<Rightarrow> mkLFRUData 0 | Some lf \<Rightarrow> lf)
      else mset (pages (data a)))"

definition wf_alg :: "int \<Rightarrow> Algorithm \<Rightarrow> bool" where
  "wf_alg nF a \<longleftrightarrow>
     length (pageTable (data a)) = nat nF \<and>
     (algoFunc a = LFRU \<longrightarrow>
        (\<exists>lf. lfruData (data a) = Some lf \<and> frames (privileged lf) \<noteq> [] \<and>
              frames (unprivileged lf) \<noteq> []))"

definition wf_sim :: "Sim \<Rightarrow> bool" where
  "wf_sim s \<longleftrightarrow>
     0 < numFrames s \<and> 0 \<le> clockHand (env s) \<and> (\<forall>a \<in> set (algorithms s). wf_alg (numFrames s) a)"

lemma tstep_mstep:
  assumes "tstep ref d fault d'"
  shows "mstep ref (mset (pages d)) fault (mset (pages d'))"
proof (cases "ref \<in> set (pages d)")
  case True
  with assms show ?thesis by (simp add: tstep_def mstep_def)
next
  case False
  with assms obtain i where i: "fault" "i < length (pages d)" "pages d' = (pages d)[i := ref]"
    "-1 \<in> set (pages d) \<longrightarrow> pages d ! i = -1"
    by (auto simp: tstep_def)
  have "mset (pages d') = add_mset ref (mset (pages d) - {#pages d ! i#})"
    unfolding i(3) by (rule mset_update [OF i(2)])
  moreover have "pages d ! i \<in># mset (pages d)" using i(2) by simp
  ultimately show ?thesis using False i(1,4) unfolding mstep_def
    by (auto intro!: exI [of _ "pages d ! i"])
qed

lemma tstep_bump: "tstep ref d fault d' \<Longrightarrow> pages (bump f d') = pages d' \<and>
   length (pageTable (bump f d')) = length (pageTable d) \<and> lfruData (bump f d') = lfruData d"
  by (simp add: tstep_def bump_def pages_def)

text \<open>One invocation: it succeeds on a well-formed algorithm, and what it does.\<close>

definition invoke_post :: "Sim \<Rightarrow> Algorithm \<Rightarrow> bool \<Rightarrow> AlgorithmData \<Rightarrow> Env \<Rightarrow> bool" where
  "invoke_post s a fault d' e' \<longleftrightarrow>
     hits d' = hits (data a) \<and> misses d' = misses (data a) \<and>
     wf_alg (numFrames s) (a\<lparr>data := bump fault d'\<rparr>) \<and>
     mstep (lastPageRef s) (resident a) fault (resident (a\<lparr>data := bump fault d'\<rparr>)) \<and>
     0 \<le> clockHand e' \<and> steadyClock e' = steadyClock (env s) \<and>
     clockReads e' = clockReads (env s) + 1"

lemma invoke_post_table:
  assumes "wf_alg (numFrames s) a" "algoFunc a \<noteq> LFRU" "tstep (lastPageRef s) (data a) fault d'"
    "0 \<le> clockHand e'" "steadyClock e' = steadyClock (env s)"
    "clockReads e' = clockReads (env s) + 1"
  shows "invoke_post s a fault d' e'"
  using assms tstep_mstep [OF assms(3)] tstep_bump [OF assms(3), of fault]
  unfolding invoke_post_def wf_alg_def resident_def
  by (simp add: tstep_def)

lemma invoke_ok:
  assumes wf: "wf_alg (numFrames s) a" and nf: "0 < numFrames s" and ch: "0 \<le> clockHand (env s)"
  shows "\<exists>fault d' e'. invoke (algoFunc a) s (data a) = Some (fault, d', e') \<and>
           invoke_post s a fault d' e'"
proof -
  let ?d = "data a" and ?e = "env s"
  let ?now = "steadyClock ?e (clockReads ?e)"
  let ?e1 = "?e\<lparr>clockReads := clockReads ?e + 1\<rparr>"
  from wf nf have len: "length (pageTable ?d) = nat (numFrames s)" and ne: "pageTable ?d \<noteq> []"
    by (auto simp: wf_alg_def)
  show ?thesis
  proof (cases "algoFunc a")
    case OPTIMAL
    from optimal_total [OF ne] obtain fault d' where
      r: "optimal (pageRefs s) (counter s) (lastPageRef s) ?now ?d = Some (fault, d')" by blast
    from optimal_tstep [OF ne r] have "tstep (lastPageRef s) ?d fault d'" .
    from invoke_post_table [OF wf _ this, of ?e1] ch OPTIMAL r show ?thesis
      by (simp add: invoke_def Let_def)
  next
    case RANDOM
    from random_total [OF nf len] obtain fault d' pos' where
      r: "random_repl (numFrames s) (counter s) (lastPageRef s) ?now (rngDraws ?e) (rngPos ?e) ?d
          = Some (fault, d', pos')" by blast
    from random_tstep [OF r] have "tstep (lastPageRef s) ?d fault d'" .
    from invoke_post_table [OF wf _ this, of "?e1\<lparr>rngPos := pos'\<rparr>"] ch RANDOM r show ?thesis
      by (simp add: invoke_def Let_def)
  next
    case FIFO
    obtain fault d' where r: "fifo (counter s) (lastPageRef s) ?now ?d = (fault, d')"
      by (cases "fifo (counter s) (lastPageRef s) ?now ?d")
    from fifo_tstep [OF ne r] have "tstep (lastPageRef s) ?d fault d'" .
    from invoke_post_table [OF wf _ this, of ?e1] ch FIFO r show ?thesis
      by (simp add: invoke_def Let_def)
  next
    case LRU
    obtain fault d' where r: "lru (counter s) (lastPageRef s) ?now ?d = (fault, d')"
      by (cases "lru (counter s) (lastPageRef s) ?now ?d")
    from lru_tstep [OF ne r] have "tstep (lastPageRef s) ?d fault d'" .
    from invoke_post_table [OF wf _ this, of ?e1] ch LRU r show ?thesis
      by (simp add: invoke_def Let_def)
  next
    case CLOCK
    from clock_tstep [OF nf len ch] obtain fault d' h' where
      r: "clock (numFrames s) (lastPageRef s) (clockHand ?e) ?d = Some (fault, d', h')"
      and t: "tstep (lastPageRef s) ?d fault d'" and h: "0 \<le> h'" by blast
    from invoke_post_table [OF wf _ t, of "?e1\<lparr>clockHand := h'\<rparr>"] h CLOCK r show ?thesis
      by (simp add: invoke_def Let_def)
  next
    case NFU
    obtain fault d' where r: "nfu (lastPageRef s) ?now ?d = (fault, d')"
      by (cases "nfu (lastPageRef s) ?now ?d")
    from nfu_tstep [OF ne r] have "tstep (lastPageRef s) ?d fault d'" .
    from invoke_post_table [OF wf _ this, of ?e1] ch NFU r show ?thesis
      by (simp add: invoke_def Let_def)
  next
    case AGING
    obtain fault d' where r: "aging (lastPageRef s) ?now ?d = (fault, d')"
      by (cases "aging (lastPageRef s) ?now ?d")
    from aging_tstep [OF ne r] have "tstep (lastPageRef s) ?d fault d'" .
    from invoke_post_table [OF wf _ this, of ?e1] ch AGING r show ?thesis
      by (simp add: invoke_def Let_def)
  next
    case MRU
    obtain fault d' where r: "mru (lastPageRef s) ?now ?d = (fault, d')"
      by (cases "mru (lastPageRef s) ?now ?d")
    from mru_tstep [OF ne r] have "tstep (lastPageRef s) ?d fault d'" .
    from invoke_post_table [OF wf _ this, of ?e1] ch MRU r show ?thesis
      by (simp add: invoke_def Let_def)
  next
    case NRU
    obtain fault d' where r: "nru (lastPageRef s) ?now ?d = (fault, d')"
      by (cases "nru (lastPageRef s) ?now ?d")
    from nru_tstep [OF ne r] have "tstep (lastPageRef s) ?d fault d'" .
    from invoke_post_table [OF wf _ this, of ?e1] ch NRU r show ?thesis
      by (simp add: invoke_def Let_def)
  next
    case MFU
    obtain fault d' where r: "mfu (lastPageRef s) ?d = (fault, d')"
      by (cases "mfu (lastPageRef s) ?d")
    from mfu_tstep [OF ne r] have "tstep (lastPageRef s) ?d fault d'" .
    from invoke_post_table [OF wf _ this, of ?e1] ch MFU r show ?thesis
      by (simp add: invoke_def Let_def)
  next
    case LFU
    obtain fault d' tc' where r: "lfu (lastPageRef s) (timeCounter ?e) ?d = (fault, d', tc')"
      by (cases "lfu (lastPageRef s) (timeCounter ?e) ?d") auto
    from lfu_tstep [OF ne r] have "tstep (lastPageRef s) ?d fault d'" .
    from invoke_post_table [OF wf _ this, of "?e1\<lparr>timeCounter := tc'\<rparr>"] ch LFU r show ?thesis
      by (simp add: invoke_def Let_def)
  next
    case LFRU
    with wf obtain lf where lf: "lfruData ?d = Some lf" "frames (privileged lf) \<noteq> []"
      "frames (unprivileged lf) \<noteq> []" by (auto simp: wf_alg_def)
    obtain fault d' tc' where r: "lfru (lastPageRef s) (timeCounter ?e) ?now ?d = (fault, d', tc')"
      by (cases "lfru (lastPageRef s) (timeCounter ?e) ?now ?d") auto
    from lfru_mstep [OF lf r] obtain lf' where
      p: "lfruData d' = Some lf'"
        "length (frames (privileged lf')) = length (frames (privileged lf))"
        "length (frames (unprivileged lf')) = length (frames (unprivileged lf))"
        "hits d' = hits ?d" "misses d' = misses ?d" "pageTable d' = pageTable ?d"
        "mstep (lastPageRef s) (lpages lf) fault (lpages lf')" by blast
    from p(2,3) lf(2,3) have ne': "frames (privileged lf') \<noteq> []" "frames (unprivileged lf') \<noteq> []"
      by (metis length_0_conv)+
    have "invoke_post s a fault d' (?e1\<lparr>timeCounter := tc'\<rparr>)"
      unfolding invoke_post_def wf_alg_def resident_def
      using LFRU lf p ne' len ch by (cases fault) (simp_all add: bump_def)
    with LFRU r show ?thesis by (simp add: invoke_def Let_def)
  qed
qed


text \<open>
  \<open>astep s lo hi a a'\<close>: what one pass of \<open>processPageReference\<close> does to one
  algorithm. A selected algorithm is invoked once, in some environment whose clock is
  the simulator's and whose reading index lies in \<open>[lo, hi)\<close>, and the engine bumps
  one counter; an algorithm that is not selected is left alone.
\<close>

definition astep :: "Sim \<Rightarrow> nat \<Rightarrow> nat \<Rightarrow> Algorithm \<Rightarrow> Algorithm \<Rightarrow> bool" where
  "astep s lo hi a a' \<longleftrightarrow>
     (if selected a then
        (\<exists>e fault d' e'. steadyClock e = steadyClock (env s) \<and> lo \<le> clockReads e \<and>
            clockReads e < hi \<and> 0 \<le> clockHand e \<and>
            invoke (algoFunc a) (s\<lparr>env := e\<rparr>) (data a) = Some (fault, d', e') \<and>
            a' = a\<lparr>data := bump fault d'\<rparr>)
      else a' = a)"

lemma astep_mono:
  "astep s lo hi a a' \<Longrightarrow> lo' \<le> lo \<Longrightarrow> hi \<le> hi' \<Longrightarrow> astep s lo' hi' a a'"
  unfolding astep_def by (fastforce split: if_splits)

lemma astep_env:
  "astep (s\<lparr>env := e1\<rparr>) lo hi a a' \<Longrightarrow> steadyClock e1 = steadyClock (env s) \<Longrightarrow>
   astep s lo hi a a'"
  unfolding astep_def by (auto split: if_splits)

lemma run_algorithms_astep:
  assumes "\<forall>a \<in> set algs. wf_alg (numFrames s) a" "0 < numFrames s" "0 \<le> clockHand (env s)"
  shows "\<exists>algs' e'. run_algorithms algs s = Some (algs', s\<lparr>env := e'\<rparr>) \<and>
           list_all2 (astep s (clockReads (env s)) (clockReads e')) algs algs' \<and>
           (\<forall>a \<in> set algs'. wf_alg (numFrames s) a) \<and> 0 \<le> clockHand e' \<and>
           steadyClock e' = steadyClock (env s) \<and> clockReads (env s) \<le> clockReads e'"
  using assms
proof (induction algs arbitrary: s)
  case Nil
  show ?case by (intro exI [of _ "[]"] exI [of _ "env s"]) (use Nil in simp)
next
  case (Cons a rest)
  show ?case
  proof (cases "selected a")
    case False
    from Cons.IH [of s] Cons.prems obtain algs' e' where
      r: "run_algorithms rest s = Some (algs', s\<lparr>env := e'\<rparr>)"
        "list_all2 (astep s (clockReads (env s)) (clockReads e')) rest algs'"
        "\<forall>a \<in> set algs'. wf_alg (numFrames s) a" "0 \<le> clockHand e'"
        "steadyClock e' = steadyClock (env s)" "clockReads (env s) \<le> clockReads e'"
      by auto
    have "astep s (clockReads (env s)) (clockReads e') a a"
      using False by (simp add: astep_def)
    with r False Cons.prems(1) show ?thesis
      by (intro exI [of _ "a # algs'"] exI [of _ e']) simp
  next
    case True
    from Cons.prems have wfa: "wf_alg (numFrames s) a" by simp
    from invoke_ok [OF wfa Cons.prems(2,3)] obtain fault d' e1 where
      inv: "invoke (algoFunc a) s (data a) = Some (fault, d', e1)"
      and post: "invoke_post s a fault d' e1" by blast
    let ?s1 = "s\<lparr>env := e1\<rparr>"
    let ?a' = "a\<lparr>data := bump fault d'\<rparr>"
    from post have e1: "0 \<le> clockHand e1" "steadyClock e1 = steadyClock (env s)"
      "clockReads e1 = clockReads (env s) + 1" "wf_alg (numFrames s) ?a'"
      by (simp_all add: invoke_post_def)
    from Cons.IH [of ?s1] Cons.prems e1 obtain algs' e' where
      r: "run_algorithms rest ?s1 = Some (algs', ?s1\<lparr>env := e'\<rparr>)"
        "list_all2 (astep ?s1 (clockReads e1) (clockReads e')) rest algs'"
        "\<forall>a \<in> set algs'. wf_alg (numFrames s) a" "0 \<le> clockHand e'"
        "steadyClock e' = steadyClock e1" "clockReads e1 \<le> clockReads e'"
      by auto
    have rest: "list_all2 (astep s (clockReads (env s)) (clockReads e')) rest algs'"
      using r(2) e1(2,3)
      by (auto elim!: list_all2_mono intro: astep_mono [OF astep_env])
    have "astep s (clockReads (env s)) (clockReads e') a ?a'"
      unfolding astep_def using True inv e1 r(6) Cons.prems(3)
      by (auto intro!: exI [of _ "env s"])
    with rest r e1 True inv show ?thesis
      by (intro exI [of _ "?a' # algs'"] exI [of _ e']) (simp add: bump_def)
  qed
qed

lemma processPageReference_astep:
  assumes "wf_sim s"
  shows "\<exists>algs' e'. processPageReference pageRef s =
             Some (s\<lparr>lastPageRef := pageRef, env := e', algorithms := algs'\<rparr>) \<and>
           list_all2 (astep (s\<lparr>lastPageRef := pageRef\<rparr>) (clockReads (env s)) (clockReads e'))
             (algorithms s) algs' \<and>
           wf_sim (s\<lparr>lastPageRef := pageRef, env := e', algorithms := algs'\<rparr>) \<and>
           steadyClock e' = steadyClock (env s) \<and> clockReads (env s) \<le> clockReads e'"
proof -
  let ?s0 = "s\<lparr>lastPageRef := pageRef\<rparr>"
  from assms have "\<forall>a \<in> set (algorithms ?s0). wf_alg (numFrames ?s0) a" "0 < numFrames ?s0"
    "0 \<le> clockHand (env ?s0)" by (simp_all add: wf_sim_def)
  from run_algorithms_astep [OF this] obtain algs' e' where
    r: "run_algorithms (algorithms ?s0) ?s0 = Some (algs', ?s0\<lparr>env := e'\<rparr>)"
      "list_all2 (astep ?s0 (clockReads (env ?s0)) (clockReads e')) (algorithms ?s0) algs'"
      "\<forall>a \<in> set algs'. wf_alg (numFrames ?s0) a" "0 \<le> clockHand e'"
      "steadyClock e' = steadyClock (env ?s0)" "clockReads (env ?s0) \<le> clockReads e'"
    by blast
  from r(1) have "processPageReference pageRef s =
      Some (s\<lparr>lastPageRef := pageRef, env := e', algorithms := algs'\<rparr>)"
    by (simp add: processPageReference_def Let_def)
  with r assms show ?thesis
    by (intro exI [of _ algs'] exI [of _ e']) (simp add: wf_sim_def)
qed


text \<open>The references the loop of \<open>runSimulation\<close> still has to process.\<close>

definition remaining :: "Sim \<Rightarrow> int list" where
  "remaining s = map pageNum (drop (nat (counter s)) (take (nat (maxPageCalls s)) (pageRefs s)))"

lemma remaining_step:
  assumes "0 \<le> counter s" "counter s < maxPageCalls s" "counter s < int (length (pageRefs s))"
  shows "remaining s = pageNum (pageRefs s ! nat (counter s)) # remaining (s\<lparr>counter := counter s + 1\<rparr>)"
proof -
  let ?c = "nat (counter s)" and ?t = "take (nat (maxPageCalls s)) (pageRefs s)"
  from assms have c: "?c < length ?t" by simp
  then have "drop ?c ?t = ?t ! ?c # drop (Suc ?c) ?t"
    by (rule Cons_nth_drop_Suc [symmetric])
  moreover have "?t ! ?c = pageRefs s ! ?c" using assms by simp
  moreover have "nat (counter s + 1) = Suc ?c" using assms(1) by simp
  ultimately show ?thesis by (simp add: remaining_def)
qed

lemma remaining_done:
  assumes "\<not> (counter s < maxPageCalls s \<and> counter s < int (length (pageRefs s)))" "0 \<le> counter s"
  shows "remaining s = []"
  using assms by (auto simp: remaining_def)

text \<open>
  Induction over the loop of \<open>runSimulation\<close>: the loop returns, and a property that
  holds before the loop and is kept by every pass holds afterwards.
\<close>

lemma run_loop_invariant:
  assumes "wf_sim s" "0 \<le> counter s" "I s"
    and step: "\<And>s algs' e'. wf_sim s \<Longrightarrow> I s \<Longrightarrow> 0 \<le> counter s \<Longrightarrow>
        counter s < maxPageCalls s \<Longrightarrow> counter s < int (length (pageRefs s)) \<Longrightarrow>
        list_all2 (astep (s\<lparr>lastPageRef := pageNum (pageRefs s ! nat (counter s))\<rparr>)
                     (clockReads (env s)) (clockReads e')) (algorithms s) algs' \<Longrightarrow>
        steadyClock e' = steadyClock (env s) \<Longrightarrow> clockReads (env s) \<le> clockReads e' \<Longrightarrow>
        I (s\<lparr>lastPageRef := pageNum (pageRefs s ! nat (counter s)), env := e',
              algorithms := algs', counter := counter s + 1\<rparr>)"
  shows "\<exists>s'. run_loop s = Some s' \<and> wf_sim s' \<and> I s' \<and> 0 \<le> counter s' \<and>
           \<not> (counter s' < maxPageCalls s' \<and> counter s' < int (length (pageRefs s'))) \<and>
           pageRefs s' = pageRefs s \<and> maxPageCalls s' = maxPageCalls s \<and>
           numFrames s' = numFrames s"
  using assms(1-3)
proof (induction s rule: run_loop.induct)
  case (1 s)
  show ?case
  proof (cases "counter s < maxPageCalls s \<and> counter s < int (length (pageRefs s))")
    case False
    then have "run_loop s = Some s" by (subst run_loop.simps) auto
    with False 1(2-4) show ?thesis by simp
  next
    case True
    let ?p = "pageNum (pageRefs s ! nat (counter s))"
    from processPageReference_astep [OF 1(2), of ?p] obtain algs' e' where
      pp: "processPageReference ?p s = Some (s\<lparr>lastPageRef := ?p, env := e', algorithms := algs'\<rparr>)"
      and st: "list_all2 (astep (s\<lparr>lastPageRef := ?p\<rparr>) (clockReads (env s)) (clockReads e'))
             (algorithms s) algs'"
      and wf: "wf_sim (s\<lparr>lastPageRef := ?p, env := e', algorithms := algs'\<rparr>)"
      and ck: "steadyClock e' = steadyClock (env s)" "clockReads (env s) \<le> clockReads e'"
      by blast
    let ?s1 = "s\<lparr>lastPageRef := ?p, env := e', algorithms := algs'\<rparr>"
    let ?s2 = "?s1\<lparr>counter := counter ?s1 + 1\<rparr>"
    have wf2: "wf_sim ?s2" using wf by (simp add: wf_sim_def)
    have c2: "0 \<le> counter ?s2" using 1(3) by simp
    have "I (s\<lparr>lastPageRef := ?p, env := e', algorithms := algs', counter := counter s + 1\<rparr>)"
      using step [OF 1(2) 1(4) 1(3) _ _ st ck] True by simp
    then have I2: "I ?s2" by simp
    from True 1(3) have nn: "\<not> counter s < 0" by simp
    from 1(1) [OF True nn pp wf2 c2 I2] obtain s' where
      r: "run_loop ?s2 = Some s'" "wf_sim s'" "I s'" "0 \<le> counter s'"
        "\<not> (counter s' < maxPageCalls s' \<and> counter s' < int (length (pageRefs s')))"
        "pageRefs s' = pageRefs ?s2" "maxPageCalls s' = maxPageCalls ?s2"
        "numFrames s' = numFrames ?s2"
      by blast
    have "run_loop s = Some s'"
      using True nn pp r(1) by (subst run_loop.simps) auto
    with r show ?thesis by simp
  qed
qed


section \<open>A whole run\<close>

text \<open>
  \<open>simulate\<close> is the sequence the front end and the tests perform: construct, configure,
  load (the loaded trace is \<open>refs\<close>), select, run. An invalid code ends it before any
  policy step.
\<close>

definition simulate :: "Env \<Rightarrow> int \<Rightarrow> int \<Rightarrow> PageRef list \<Rightarrow> char \<Rightarrow> Sim option" where
  "simulate e nframes maxCalls refs algoCode =
     (case selectAlgorithm algoCode
             ((setConfiguration nframes maxCalls False False (newSimulator e))\<lparr>pageRefs := refs\<rparr>) of
        Inl _ \<Rightarrow> None
      | Inr s \<Rightarrow> runSimulation s)"

lemma policy_table_LFRU: "(name, LFRU) \<in> set policy_table \<Longrightarrow> name = ''LFRU''"
  by (simp add: policy_table_def)

lemma wf_alg_mkAlgorithm:
  assumes "np \<in> set policy_table"
  shows "wf_alg nF (mkAlgorithm nF now np)"
proof -
  obtain name pol where np: "np = (name, pol)" by (cases np)
  have "pol = LFRU \<Longrightarrow> name = ''LFRU''"
    using assms policy_table_LFRU unfolding np by blast
  then show ?thesis
    unfolding np wf_alg_def mkAlgorithm_def
    by (auto simp: mkAlgorithmData_def mkLFRUData_def mkPartition_def Let_def
                   PRIVILEGED_PARTITION_SIZE_def UNPRIVILEGED_PARTITION_SIZE_def)
qed

lemma wf_sim_initializeAlgorithms:
  "0 < numFrames s \<Longrightarrow> 0 \<le> clockHand (env s) \<Longrightarrow> wf_sim (initializeAlgorithms s)"
  by (auto simp: wf_sim_def initializeAlgorithms_def Let_def intro: wf_alg_mkAlgorithm)

lemma wf_sim_setConfiguration:
  "0 \<le> clockHand (env s) \<Longrightarrow> wf_sim (setConfiguration n mc dbg pr s)"
  unfolding setConfiguration_def by (rule wf_sim_initializeAlgorithms) simp_all

lemma env_newSimulator [simp]: "clockHand (env (newSimulator e)) = clockHand e"
  "steadyClock (env (newSimulator e)) = steadyClock e"
  by (simp_all add: newSimulator_def initializeAlgorithms_def Let_def)

text \<open>\<open>selectAlgorithm\<close> only writes \<open>selected\<close> flags.\<close>

definition flags_only :: "Algorithm \<Rightarrow> Algorithm \<Rightarrow> bool" where
  "flags_only a a' \<longleftrightarrow> a' = a\<lparr>selected := selected a'\<rparr>"

lemma flags_only_deselect: "list_all2 flags_only algs (deselect_all algs)"
  by (simp add: list_all2_conv_all_nth deselect_all_def flags_only_def)

lemma flags_only_flag: "flags_only a a' \<Longrightarrow> flags_only a (a'\<lparr>selected := b\<rparr>)"
  unfolding flags_only_def by (cases a, cases a') simp

lemma flags_only_update:
  assumes "list_all2 flags_only xs ys"
  shows "list_all2 flags_only xs (ys[k := (ys ! k)\<lparr>selected := b\<rparr>])"
proof (cases "k < length ys")
  case True
  with assms have "flags_only (xs ! k) (ys ! k)" by (simp add: list_all2_conv_all_nth)
  then have "flags_only (xs ! k) ((ys ! k)\<lparr>selected := b\<rparr>)" by (rule flags_only_flag)
  from list_all2_update_cong [OF assms this, of k] show ?thesis by simp
next
  case False
  then have "ys[k := (ys ! k)\<lparr>selected := b\<rparr>] = ys" by (simp add: list_update_beyond)
  with assms show ?thesis by simp
qed

lemma flags_only_select_at: "list_all2 flags_only algs (select_at k (deselect_all algs))"
  unfolding select_at_def by (rule flags_only_update [OF flags_only_deselect])

lemma flags_only_select_all:
  "list_all2 flags_only algs (map (\<lambda>a. a\<lparr>selected := True\<rparr>) (deselect_all algs))"
  by (simp add: list_all2_conv_all_nth deselect_all_def flags_only_def)

lemma selectAlgorithm_Inr:
  assumes "selectAlgorithm code s = Inr s'"
  shows "\<exists>algs'. s' = s\<lparr>algorithms := algs'\<rparr> \<and> list_all2 flags_only (algorithms s) algs'"
proof -
  from assms have
    "(\<exists>k. s' = s\<lparr>algorithms := select_at k (deselect_all (algorithms s))\<rparr>) \<or>
     s' = s\<lparr>algorithms := map (\<lambda>a. a\<lparr>selected := True\<rparr>) (deselect_all (algorithms s))\<rparr>"
    by (simp add: selectAlgorithm_def Let_def split: if_splits) blast+
  then show ?thesis
    using flags_only_select_at flags_only_select_all by blast
qed

lemma flags_only_wf: "flags_only a a' \<Longrightarrow> wf_alg nF a \<Longrightarrow> wf_alg nF a'"
  unfolding flags_only_def wf_alg_def by (cases a, cases a') auto

lemma flags_only_data: "flags_only a a' \<Longrightarrow> data a' = data a \<and> algoFunc a' = algoFunc a \<and> label a' = label a"
  unfolding flags_only_def by (cases a, cases a') auto


section \<open>C2: the engine, not the policy, counts hits and misses\<close>

lemma counters_set_frame [simp]:
  "hits (set_frame i g d) = hits d" "misses (set_frame i g d) = misses d"
  "hits (push_victim i d) = hits d" "misses (push_victim i d) = misses d"
  by (simp_all add: set_frame_def push_victim_def)

lemma clock_search_counters:
  "clock_search nF ref st d h it = Some (r, d', h', it') \<Longrightarrow>
   hits d' = hits d \<and> misses d' = misses d"
proof (induction nF ref st d h it rule: clock_search.induct)
  case (1 nF ref st d h it)
  note res = "1.prems"
  show ?case
  proof (cases "h < 0 \<or> nat h \<ge> length (pageTable d) \<or> nF \<le> 0")
    case True
    then have "clock_search nF ref st d h it = None"
      by (subst clock_search.simps) simp
    with res show ?thesis by simp
  next
    case inr: False
    show ?thesis
    proof (cases "extra (pageTable d ! nat h) = 0")
      case True
      with inr have "clock_search nF ref st d h it =
          Some (True, set_frame (nat h) (\<lambda>f. f\<lparr>page := ref, extra := 1\<rparr>) (push_victim (nat h) d),
                (h + 1) mod nF, it + 1)"
        by (subst clock_search.simps) simp
      with res show ?thesis by auto
    next
      case nz: False
      let ?d = "set_frame (nat h) (\<lambda>f. f\<lparr>extra := 0\<rparr>) d" and ?h = "(h + 1) mod nF"
      show ?thesis
      proof (cases "?h \<noteq> st")
        case True
        with inr nz have "clock_search nF ref st d h it = clock_search nF ref st ?d ?h (it + 1)"
          by (subst clock_search.simps) (simp add: Let_def)
        with res have "clock_search nF ref st ?d ?h (it + 1) = Some (r, d', h', it')" by simp
        from "1.IH" [OF inr nz refl refl True this] show ?thesis by simp
      next
        case False
        with inr nz have "clock_search nF ref st d h it = Some (False, ?d, ?h, it + 1)"
          by (subst clock_search.simps) (simp add: Let_def)
        with res show ?thesis by auto
      qed
    qed
  qed
qed

lemma policy_counters:
  "optimal refs cnt ref now d = Some (fault, d') \<Longrightarrow> hits d' = hits d \<and> misses d' = misses d"
  "random_repl nF cnt ref now draws pos d = Some (fault, d', pos') \<Longrightarrow> hits d' = hits d \<and> misses d' = misses d"
  "fifo cnt ref now d = (fault, d') \<Longrightarrow> hits d' = hits d \<and> misses d' = misses d"
  "lru cnt ref now d = (fault, d') \<Longrightarrow> hits d' = hits d \<and> misses d' = misses d"
  "nfu ref now d = (fault, d') \<Longrightarrow> hits d' = hits d \<and> misses d' = misses d"
  "aging ref now d = (fault, d') \<Longrightarrow> hits d' = hits d \<and> misses d' = misses d"
  "mru ref now d = (fault, d') \<Longrightarrow> hits d' = hits d \<and> misses d' = misses d"
  "nru ref now d = (fault, d') \<Longrightarrow> hits d' = hits d \<and> misses d' = misses d"
  "mfu ref d = (fault, d') \<Longrightarrow> hits d' = hits d \<and> misses d' = misses d"
  "lfu ref tc d = (fault, d', tc') \<Longrightarrow> hits d' = hits d \<and> misses d' = misses d"
  "lfru ref tc now d = (fault, d', tc') \<Longrightarrow> hits d' = hits d \<and> misses d' = misses d"
  by (auto simp: optimal_def random_repl_def fifo_def lru_def nfu_def aging_def mru_def nru_def
        mfu_def lfu_def lfru_def Let_def split: option.splits if_splits prod.splits)

lemma clock_counters:
  assumes "clock nF ref h0 d = Some (fault, d', h')"
  shows "hits d' = hits d \<and> misses d' = misses d"
proof (cases "find_if (\<lambda>f. page f = ref) (pageTable d)")
  case (Some i)
  with assms show ?thesis by (auto simp: clock_def Let_def)
next
  case nohit: None
  show ?thesis
  proof (cases "find_if (\<lambda>f. page f = -1) (pageTable d)")
    case (Some i)
    with nohit assms show ?thesis by (auto simp: clock_def Let_def)
  next
    case None
    let ?h = "if nF \<le> h0 then 0 else h0"
    from assms nohit None obtain r d1 h1 it1 where
      cs: "clock_search nF ref ?h d ?h 0 = Some (r, d1, h1, it1)"
      by (cases "clock_search nF ref ?h d ?h 0") (auto simp: clock_def Let_def)
    from clock_search_counters [OF cs] have c: "hits d1 = hits d" "misses d1 = misses d"
      by simp_all
    from assms nohit None cs have
      "d' = d1 \<or> d' = set_frame (nat h1) (\<lambda>f. f\<lparr>page := ref, extra := 1\<rparr>) (push_victim (nat h1) d1)"
      by (auto simp: clock_def Let_def split: if_splits)
    with c show ?thesis by auto
  qed
qed

lemma invoke_counters:
  "invoke pol s d = Some (fault, d', e') \<Longrightarrow> hits d' = hits d \<and> misses d' = misses d"
  by (cases pol)
     (auto simp: invoke_def Let_def split: prod.splits
           dest: policy_counters clock_counters)


lemma selectAlgorithm_valid:
  "algoCode \<in> set ''ORFLCNAMnmlfa'' \<Longrightarrow> \<exists>s'. selectAlgorithm algoCode s = Inr s'"
  by (auto simp: selectAlgorithm_def Let_def)

lemma list_all2_in_right:
  "list_all2 R xs ys \<Longrightarrow> y \<in> set ys \<Longrightarrow> \<exists>x \<in> set xs. R x y"
  by (induction rule: list_all2_induct) auto

lemma mkAlgorithm_fresh:
  "hits (data (mkAlgorithm nF now np)) = 0" "misses (data (mkAlgorithm nF now np)) = 0"
  "victimList (data (mkAlgorithm nF now np)) = []"
  "pages (data (mkAlgorithm nF now np)) = replicate (nat nF) (-1)"
  "\<not> selected (mkAlgorithm nF now np)"
  "algoFunc (mkAlgorithm nF now np) = snd np"
  by (simp_all add: mkAlgorithm_def mkAlgorithmData_def pages_def mkFrame_def Let_def
        map_replicate_const comp_def)

lemma fresh_algorithm:
  assumes "a \<in> set (algorithms (initializeAlgorithms s))"
  shows "hits (data a) = 0 \<and> misses (data a) = 0 \<and> victimList (data a) = [] \<and>
         pages (data a) = replicate (nat (numFrames s)) (-1) \<and> \<not> selected a"
proof -
  from assms obtain np where "a = mkAlgorithm (numFrames s) (steadyClock (env s) (clockReads (env s))) np"
    by (auto simp: initializeAlgorithms_def Let_def)
  then show ?thesis by (simp add: mkAlgorithm_fresh)
qed

text \<open>The simulator \<open>simulate\<close> hands to \<open>runSimulation\<close>.\<close>

lemma simulate_start:
  assumes "0 \<le> clockHand e" "algoCode \<in> set ''ORFLCNAMnmlfa''"
  shows "\<exists>s algs0. selectAlgorithm algoCode
             ((setConfiguration nframes maxCalls False False (newSimulator e))\<lparr>pageRefs := refs\<rparr>) = Inr s \<and>
           simulate e nframes maxCalls refs algoCode = runSimulation s \<and>
           wf_sim s \<and> pageRefs s = refs \<and> maxPageCalls s = maxCalls \<and>
           numFrames s = max 1 nframes \<and>
           algs0 = algorithms (setConfiguration nframes maxCalls False False (newSimulator e)) \<and>
           list_all2 flags_only algs0 (algorithms s) \<and>
           steadyClock (env s) = steadyClock e"
proof -
  let ?c = "setConfiguration nframes maxCalls False False (newSimulator e)"
  let ?s0 = "?c\<lparr>pageRefs := refs\<rparr>"
  from selectAlgorithm_valid [OF assms(2)] obtain s where
    sel: "selectAlgorithm algoCode ?s0 = Inr s" by blast
  from selectAlgorithm_Inr [OF sel] obtain algs' where
    s: "s = ?s0\<lparr>algorithms := algs'\<rparr>" "list_all2 flags_only (algorithms ?s0) algs'" by blast
  have wf0: "wf_sim ?c" by (rule wf_sim_setConfiguration) (simp add: assms(1))
  have "wf_sim s"
    unfolding s(1) wf_sim_def
  proof (intro conjI ballI)
    show "0 < numFrames (?s0\<lparr>algorithms := algs'\<rparr>)" using wf0 by (simp add: wf_sim_def)
    show "0 \<le> clockHand (env (?s0\<lparr>algorithms := algs'\<rparr>))" using wf0 by (simp add: wf_sim_def)
  next
    fix a' assume "a' \<in> set (algorithms (?s0\<lparr>algorithms := algs'\<rparr>))"
    then have "a' \<in> set algs'" by simp
    with list_all2_in_right [OF s(2)] obtain a where "a \<in> set (algorithms ?s0)" "flags_only a a'"
      by blast
    with wf0 show "wf_alg (numFrames (?s0\<lparr>algorithms := algs'\<rparr>)) a'"
      by (auto simp: wf_sim_def intro: flags_only_wf)
  qed
  moreover have "simulate e nframes maxCalls refs algoCode = runSimulation s"
    by (simp add: simulate_def sel)
  moreover have "numFrames s = max 1 nframes" "maxPageCalls s = maxCalls"
    "steadyClock (env s) = steadyClock e"
    unfolding s(1) by (simp_all add: setConfiguration_def initializeAlgorithms_def Let_def)
  ultimately show ?thesis using sel s by auto
qed


lemma astep_counters:
  assumes "astep s lo hi a a'"
  shows "selected a' = selected a \<and> algoFunc a' = algoFunc a \<and> label a' = label a \<and>
         hits (data a') + misses (data a') =
           hits (data a) + misses (data a) + (if selected a then 1 else 0)"
proof (cases "selected a")
  case False
  with assms show ?thesis by (simp add: astep_def)
next
  case True
  with assms obtain e fault d' e' where
    i: "invoke (algoFunc a) (s\<lparr>env := e\<rparr>) (data a) = Some (fault, d', e')"
    and a': "a' = a\<lparr>data := bump fault d'\<rparr>"
    unfolding astep_def by auto
  from invoke_counters [OF i] True show ?thesis
    unfolding a' by (simp add: bump_def)
qed

text \<open>The number of references \<open>runSimulation\<close> processes.\<close>

definition processed :: "int \<Rightarrow> PageRef list \<Rightarrow> int" where
  "processed maxCalls refs = max 0 (min maxCalls (int (length refs)))"

text \<open>
  One pass of the engine over the algorithms, spelled out: an algorithm that is not
  selected is left as it is; for a selected one the policy is called, and the new data is
  what the call returned with one added to \<open>misses\<close> when the call returned \<open>true\<close> (a
  fault) and one added to \<open>hits\<close> when it returned \<open>false\<close>.
\<close>

lemma run_algorithms_accounting:
  defines "R \<equiv> \<lambda>(t :: Sim) a a'.
             if selected a
             then \<exists>e fault d' e'.
                    invoke (algoFunc a) (t\<lparr>env := e\<rparr>) (data a) = Some (fault, d', e') \<and>
                    a' = a\<lparr>data := d'\<lparr>hits := hits (data a) + (if fault then 0 else 1),
                                       misses := misses (data a) + (if fault then 1 else 0)\<rparr>\<rparr>
             else a' = a"
  assumes "run_algorithms algs s = Some (algs', s')"
  shows "list_all2 (R s) algs algs'"
  using assms(2)
proof (induction algs arbitrary: s algs' s')
  case Nil
  then show ?case by simp
next
  case (Cons a rest)
  have Renv: "R (t\<lparr>env := x\<rparr>) = R t" for t x by (simp add: R_def)
  show ?case
  proof (cases "selected a")
    case False
    with Cons.prems obtain rest' where
      r: "run_algorithms rest s = Some (rest', s')" "algs' = a # rest'" by auto
    have "R s a a" using False by (simp add: R_def)
    with Cons.IH [OF r(1)] show ?thesis unfolding r(2) by simp
  next
    case True
    with Cons.prems obtain fault d' e' where
      i: "invoke (algoFunc a) s (data a) = Some (fault, d', e')"
      by (auto split: option.splits)
    let ?d = "if fault then d'\<lparr>misses := misses d' + 1\<rparr> else d'\<lparr>hits := hits d' + 1\<rparr>"
    from Cons.prems True i obtain rest' where
      r: "run_algorithms rest (s\<lparr>env := e'\<rparr>) = Some (rest', s')" "algs' = a\<lparr>data := ?d\<rparr> # rest'"
      by (auto simp: Let_def)
    from invoke_counters [OF i] have c: "hits d' = hits (data a)" "misses d' = misses (data a)"
      by simp_all
    have d: "?d = d'\<lparr>hits := hits (data a) + (if fault then 0 else 1),
                     misses := misses (data a) + (if fault then 1 else 0)\<rparr>"
      using c by (cases d') auto
    have i0: "invoke (algoFunc a) (s\<lparr>env := env s\<rparr>) (data a) = Some (fault, d', e')"
      using i by simp
    have c2: "a\<lparr>data := ?d\<rparr> =
                a\<lparr>data := d'\<lparr>hits := hits (data a) + (if fault then 0 else 1),
                                  misses := misses (data a) + (if fault then 1 else 0)\<rparr>\<rparr>"
      by (rule arg_cong [OF d, of "\<lambda>x. a\<lparr>data := x\<rparr>"])
    have "\<exists>e fault' d'' e''.
            invoke (algoFunc a) (s\<lparr>env := e\<rparr>) (data a) = Some (fault', d'', e'') \<and>
            a\<lparr>data := ?d\<rparr> =
              a\<lparr>data := d''\<lparr>hits := hits (data a) + (if fault' then 0 else 1),
                                 misses := misses (data a) + (if fault' then 1 else 0)\<rparr>\<rparr>"
      by (intro exI) (rule conjI [OF i0 c2])
    with True have head: "R s a (a\<lparr>data := ?d\<rparr>)"
      unfolding R_def by (simp only: if_True)
    from Cons.IH [OF r(1)] have "list_all2 (R s) rest rest'" unfolding Renv .
    with head show ?thesis unfolding r(2) by simp
  qed
qed

lemma processPageReference_accounting:
  assumes "processPageReference p s = Some s'"
  shows "list_all2
           (\<lambda>a a'. if selected a
                    then \<exists>e fault d' e'.
                           invoke (algoFunc a) (s\<lparr>lastPageRef := p, env := e\<rparr>) (data a)
                             = Some (fault, d', e') \<and>
                           a' = a\<lparr>data := d'\<lparr>hits := hits (data a) + (if fault then 0 else 1),
                                              misses := misses (data a) + (if fault then 1 else 0)\<rparr>\<rparr>
                    else a' = a)
           (algorithms s) (algorithms s')"
proof -
  from assms obtain algs' t where
    r: "run_algorithms (algorithms s) (s\<lparr>lastPageRef := p\<rparr>) = Some (algs', t)"
      "s' = t\<lparr>algorithms := algs'\<rparr>"
    by (auto simp: processPageReference_def Let_def)
  from run_algorithms_accounting [OF r(1)] show ?thesis unfolding r(2) by simp
qed

text \<open>
  Claim C2. No policy call changes \<open>hits\<close> or \<open>misses\<close> (second part). The engine does
  the accounting from the value the call returns (third part): in every pass of
  \<open>processPageReference\<close>, for every selected policy, the new data is the data the call
  returned with \<open>misses\<close> increased by one if the call returned \<open>true\<close> and \<open>hits\<close>
  increased by one if it returned \<open>false\<close>, the other counter being the old one; a policy
  that is not selected is untouched. Hence (first part) after a run that processed the
  references \<open>0..t\<close> (that is, \<open>processed maxCalls refs = t + 1\<close>) every selected policy
  has \<open>hits + misses = t + 1\<close>, and the run is defined (no call fails).
\<close>

theorem counter_accounting:
  assumes "0 \<le> clockHand e" "algoCode \<in> set ''ORFLCNAMnmlfa''"
  shows "(\<exists>s'. simulate e nframes maxCalls refs algoCode = Some s' \<and>
            (\<forall>a \<in> set (algorithms s').
               hits (data a) + misses (data a) =
                 (if selected a then processed maxCalls refs else 0))) \<and>
         (\<forall>fault d' e'. invoke pol s d = Some (fault, d', e') \<longrightarrow>
            hits d' = hits d \<and> misses d' = misses d) \<and>
         (\<forall>p t'. processPageReference p t = Some t' \<longrightarrow>
            list_all2
              (\<lambda>a a'. if selected a
                       then \<exists>e fault d' e'.
                              invoke (algoFunc a) (t\<lparr>lastPageRef := p, env := e\<rparr>) (data a)
                                = Some (fault, d', e') \<and>
                              a' = a\<lparr>data := d'\<lparr>hits := hits (data a) + (if fault then 0 else 1),
                                                 misses := misses (data a) + (if fault then 1 else 0)\<rparr>\<rparr>
                       else a' = a)
              (algorithms t) (algorithms t'))"
proof (intro conjI)
  from simulate_start [OF assms, where nframes = nframes and maxCalls = maxCalls and refs = refs]
  obtain s0 where
    st: "simulate e nframes maxCalls refs algoCode = runSimulation s0" "wf_sim s0"
      "pageRefs s0 = refs" "maxPageCalls s0 = maxCalls"
      "list_all2 flags_only
         (algorithms (setConfiguration nframes maxCalls False False (newSimulator e)))
         (algorithms s0)"
    by blast
  let ?s1 = "s0\<lparr>counter := 0, maxPageCalls := min (maxPageCalls s0) (int (length (pageRefs s0)))\<rparr>"
  define I where "I s \<longleftrightarrow>
      (\<forall>a \<in> set (algorithms s).
         hits (data a) + misses (data a) = (if selected a then counter s else 0)) \<and>
      counter s \<le> max 0 (min (maxPageCalls s) (int (length (pageRefs s))))" for s :: Sim
  have wf1: "wf_sim ?s1" using st(2) by (simp add: wf_sim_def)
  have I1: "I ?s1"
    unfolding I_def
  proof (intro conjI ballI)
    fix a assume "a \<in> set (algorithms ?s1)"
    then have "a \<in> set (algorithms s0)" by simp
    from list_all2_in_right [OF st(5) this] obtain a0 where
      a0: "a0 \<in> set (algorithms (setConfiguration nframes maxCalls False False (newSimulator e)))"
        "flags_only a0 a" by blast
    from a0(1) have "hits (data a0) = 0 \<and> misses (data a0) = 0"
      unfolding setConfiguration_def by (auto dest: fresh_algorithm)
    with flags_only_data [OF a0(2)]
    show "hits (data a) + misses (data a) = (if selected a then counter ?s1 else 0)" by simp
  qed simp
  have "\<exists>s'. run_loop ?s1 = Some s' \<and> wf_sim s' \<and> I s' \<and> 0 \<le> counter s' \<and>
           \<not> (counter s' < maxPageCalls s' \<and> counter s' < int (length (pageRefs s'))) \<and>
           pageRefs s' = pageRefs ?s1 \<and> maxPageCalls s' = maxPageCalls ?s1 \<and>
           numFrames s' = numFrames ?s1"
  proof (rule run_loop_invariant [where I = I and s = ?s1, OF wf1 _ I1])
    show "0 \<le> counter ?s1" by simp
  next
    fix s :: Sim and algs' and e' :: Env
    assume I: "I s" and c: "0 \<le> counter s" "counter s < maxPageCalls s"
      "counter s < int (length (pageRefs s))"
      and as: "list_all2 (astep (s\<lparr>lastPageRef := pageNum (pageRefs s ! nat (counter s))\<rparr>)
                     (clockReads (env s)) (clockReads e')) (algorithms s) algs'"
    show "I (s\<lparr>lastPageRef := pageNum (pageRefs s ! nat (counter s)), env := e',
              algorithms := algs', counter := counter s + 1\<rparr>)"
      unfolding I_def
    proof (intro conjI ballI)
      fix a' assume "a' \<in> set (algorithms (s\<lparr>lastPageRef := pageNum (pageRefs s ! nat (counter s)),
              env := e', algorithms := algs', counter := counter s + 1\<rparr>))"
      then have "a' \<in> set algs'" by simp
      from list_all2_in_right [OF as this] obtain a where
        a: "a \<in> set (algorithms s)"
          "astep (s\<lparr>lastPageRef := pageNum (pageRefs s ! nat (counter s))\<rparr>)
             (clockReads (env s)) (clockReads e') a a'" by blast
      from I a(1) have "hits (data a) + misses (data a) = (if selected a then counter s else 0)"
        by (simp add: I_def)
      with astep_counters [OF a(2)]
      show "hits (data a') + misses (data a') =
            (if selected a' then counter (s\<lparr>lastPageRef := pageNum (pageRefs s ! nat (counter s)),
              env := e', algorithms := algs', counter := counter s + 1\<rparr>) else 0)"
        by simp
    next
      show "counter (s\<lparr>lastPageRef := pageNum (pageRefs s ! nat (counter s)), env := e',
              algorithms := algs', counter := counter s + 1\<rparr>)
          \<le> max 0 (min (maxPageCalls (s\<lparr>lastPageRef := pageNum (pageRefs s ! nat (counter s)),
              env := e', algorithms := algs', counter := counter s + 1\<rparr>))
              (int (length (pageRefs (s\<lparr>lastPageRef := pageNum (pageRefs s ! nat (counter s)),
              env := e', algorithms := algs', counter := counter s + 1\<rparr>)))))"
        using c by simp
    qed
  qed
  then obtain s' where
    r: "run_loop ?s1 = Some s'" "I s'" "0 \<le> counter s'"
      "\<not> (counter s' < maxPageCalls s' \<and> counter s' < int (length (pageRefs s')))"
      "pageRefs s' = pageRefs ?s1" "maxPageCalls s' = maxPageCalls ?s1"
    by blast
  from r(2-6) st(3,4) have "counter s' = processed maxCalls refs"
    unfolding I_def processed_def by auto
  with r(1,2) st(1)
  show "\<exists>s'. simulate e nframes maxCalls refs algoCode = Some s' \<and>
            (\<forall>a \<in> set (algorithms s').
               hits (data a) + misses (data a) =
                 (if selected a then processed maxCalls refs else 0))"
    unfolding I_def runSimulation_def by auto
next
  show "\<forall>fault d' e'. invoke pol s d = Some (fault, d', e') \<longrightarrow>
            hits d' = hits d \<and> misses d' = misses d"
    using invoke_counters by blast
next
  show "\<forall>p t'. processPageReference p t = Some t' \<longrightarrow>
            list_all2
              (\<lambda>a a'. if selected a
                       then \<exists>e fault d' e'.
                              invoke (algoFunc a) (t\<lparr>lastPageRef := p, env := e\<rparr>) (data a)
                                = Some (fault, d', e') \<and>
                              a' = a\<lparr>data := d'\<lparr>hits := hits (data a) + (if fault then 0 else 1),
                                                 misses := misses (data a) + (if fault then 1 else 0)\<rparr>\<rparr>
                       else a' = a)
              (algorithms t) (algorithms t')"
    by (intro allI impI) (rule processPageReference_accounting)
qed


definition example_refs :: "int list \<Rightarrow> PageRef list" where
  "example_refs ps = map (\<lambda>p. \<lparr>pageNum = p, pid = 1\<rparr>) ps"

theorem counter_accounting_witness:
  "0 \<le> clockHand example_env \<and> CHR ''a'' \<in> set ''ORFLCNAMnmlfa'' \<and>
   (\<exists>s'. simulate example_env 2 3 (example_refs [1, 2, 1, 3]) CHR ''a'' = Some s' \<and>
      (\<forall>a \<in> set (algorithms s').
         hits (data a) + misses (data a) =
           (if selected a then processed 3 (example_refs [1, 2, 1, 3]) else 0))) \<and>
   processed 3 (example_refs [1, 2, 1, 3]) = 3 \<and>
   (\<exists>fault d' e'.
      invoke LRU (newSimulator example_env) (example_data [(3, 0), (7, 1)]) = Some (fault, d', e') \<and>
      hits d' = hits (example_data [(3, 0), (7, 1)]) \<and>
      misses d' = misses (example_data [(3, 0), (7, 1)])) \<and>
   (\<exists>S s'.
      selectAlgorithm CHR ''L'' (setConfiguration 2 3 False False (newSimulator example_env)) = Inr S \<and>
      processPageReference 9 S = Some s' \<and>
      map (\<lambda>a. (selected a, hits (data a), misses (data a))) (algorithms S) =
        [(False, 0, 0), (False, 0, 0), (False, 0, 0), (True, 0, 0), (False, 0, 0),
         (False, 0, 0), (False, 0, 0), (False, 0, 0), (False, 0, 0), (False, 0, 0),
         (False, 0, 0), (False, 0, 0)] \<and>
      map (\<lambda>a. (hits (data a), misses (data a))) (algorithms s') =
        [(0, 0), (0, 0), (0, 0), (0, 1), (0, 0), (0, 0), (0, 0), (0, 0), (0, 0), (0, 0),
         (0, 0), (0, 0)] \<and>
      list_all2
        (\<lambda>a a'. if selected a
                 then \<exists>e fault d' e'.
                        invoke (algoFunc a) (S\<lparr>lastPageRef := 9, env := e\<rparr>) (data a)
                          = Some (fault, d', e') \<and>
                        a' = a\<lparr>data := d'\<lparr>hits := hits (data a) + (if fault then 0 else 1),
                                           misses := misses (data a) + (if fault then 1 else 0)\<rparr>\<rparr>
                 else a' = a)
        (algorithms S) (algorithms s'))"
proof -
  have h: "0 \<le> clockHand example_env" "CHR ''a'' \<in> set ''ORFLCNAMnmlfa''"
    by (simp_all add: example_env_def)
  have p: "processed 3 (example_refs [1, 2, 1, 3]) = 3"
    by (simp add: processed_def example_refs_def)
  obtain fault d' e' where
    i: "invoke LRU (newSimulator example_env) (example_data [(3, 0), (7, 1)]) = Some (fault, d', e')"
    by (cases "lru (counter (newSimulator example_env)) (lastPageRef (newSimulator example_env))
                 (steadyClock (env (newSimulator example_env)) (clockReads (env (newSimulator example_env))))
                 (example_data [(3, 0), (7, 1)])")
       (simp add: invoke_def Let_def)
  have "case selectAlgorithm CHR ''L'' (setConfiguration 2 3 False False (newSimulator example_env)) of
          Inl x \<Rightarrow> False
        | Inr S \<Rightarrow>
            (case processPageReference 9 S of
               None \<Rightarrow> False
             | Some s' \<Rightarrow>
                 map (\<lambda>a. (selected a, hits (data a), misses (data a))) (algorithms S) =
                   [(False, 0, 0), (False, 0, 0), (False, 0, 0), (True, 0, 0), (False, 0, 0),
                    (False, 0, 0), (False, 0, 0), (False, 0, 0), (False, 0, 0), (False, 0, 0),
                    (False, 0, 0), (False, 0, 0)] \<and>
                 map (\<lambda>a. (hits (data a), misses (data a))) (algorithms s') =
                   [(0, 0), (0, 0), (0, 0), (0, 1), (0, 0), (0, 0), (0, 0), (0, 0), (0, 0), (0, 0),
                    (0, 0), (0, 0)])"
    by code_simp
  then obtain S s' where
    S: "selectAlgorithm CHR ''L'' (setConfiguration 2 3 False False (newSimulator example_env)) = Inr S"
      "processPageReference 9 S = Some s'"
      "map (\<lambda>a. (selected a, hits (data a), misses (data a))) (algorithms S) =
         [(False, 0, 0), (False, 0, 0), (False, 0, 0), (True, 0, 0), (False, 0, 0),
          (False, 0, 0), (False, 0, 0), (False, 0, 0), (False, 0, 0), (False, 0, 0),
          (False, 0, 0), (False, 0, 0)]"
      "map (\<lambda>a. (hits (data a), misses (data a))) (algorithms s') =
         [(0, 0), (0, 0), (0, 0), (0, 1), (0, 0), (0, 0), (0, 0), (0, 0), (0, 0), (0, 0),
          (0, 0), (0, 0)]"
    by (auto split: sum.splits option.splits)
  note ca = counter_accounting [OF h, where nframes = 2 and maxCalls = 3
      and refs = "example_refs [1, 2, 1, 3]" and pol = LRU and s = "newSimulator example_env"
      and d = "example_data [(3, 0), (7, 1)]" and t = S]
  from ca have run: "\<exists>s'. simulate example_env 2 3 (example_refs [1, 2, 1, 3]) CHR ''a'' = Some s' \<and>
      (\<forall>a \<in> set (algorithms s').
         hits (data a) + misses (data a) =
           (if selected a then processed 3 (example_refs [1, 2, 1, 3]) else 0))"
    by (rule conjunct1)
  from ca i have pol: "hits d' = hits (example_data [(3, 0), (7, 1)]) \<and>
      misses d' = misses (example_data [(3, 0), (7, 1)])"
    by blast
  from ca S(2) have step: "list_all2
        (\<lambda>a a'. if selected a
                 then \<exists>e fault d' e'.
                        invoke (algoFunc a) (S\<lparr>lastPageRef := 9, env := e\<rparr>) (data a)
                          = Some (fault, d', e') \<and>
                        a' = a\<lparr>data := d'\<lparr>hits := hits (data a) + (if fault then 0 else 1),
                                           misses := misses (data a) + (if fault then 1 else 0)\<rparr>\<rparr>
                 else a' = a)
        (algorithms S) (algorithms s')"
    by blast
  from i pol have polx: "\<exists>fault d' e'.
      invoke LRU (newSimulator example_env) (example_data [(3, 0), (7, 1)]) = Some (fault, d', e') \<and>
      hits d' = hits (example_data [(3, 0), (7, 1)]) \<and>
      misses d' = misses (example_data [(3, 0), (7, 1)])"
    by blast
  have last: "\<exists>S s'.
      selectAlgorithm CHR ''L'' (setConfiguration 2 3 False False (newSimulator example_env)) = Inr S \<and>
      processPageReference 9 S = Some s' \<and>
      map (\<lambda>a. (selected a, hits (data a), misses (data a))) (algorithms S) =
        [(False, 0, 0), (False, 0, 0), (False, 0, 0), (True, 0, 0), (False, 0, 0),
         (False, 0, 0), (False, 0, 0), (False, 0, 0), (False, 0, 0), (False, 0, 0),
         (False, 0, 0), (False, 0, 0)] \<and>
      map (\<lambda>a. (hits (data a), misses (data a))) (algorithms s') =
        [(0, 0), (0, 0), (0, 0), (0, 1), (0, 0), (0, 0), (0, 0), (0, 0), (0, 0), (0, 0),
         (0, 0), (0, 0)] \<and>
      list_all2
        (\<lambda>a a'. if selected a
                 then \<exists>e fault d' e'.
                        invoke (algoFunc a) (S\<lparr>lastPageRef := 9, env := e\<rparr>) (data a)
                          = Some (fault, d', e') \<and>
                        a' = a\<lparr>data := d'\<lparr>hits := hits (data a) + (if fault then 0 else 1),
                                           misses := misses (data a) + (if fault then 1 else 0)\<rparr>\<rparr>
                 else a' = a)
        (algorithms S) (algorithms s')"
    by (rule exI [of _ S], rule exI [of _ s'], intro conjI) (rule S step)+
  show ?thesis
    by (intro conjI) (rule h p run polx last)+
qed

section \<open>C3: no page is resident twice\<close>

text \<open>The page numbers in a policy's container, slot by slot: the page table, or for
  LFRU the privileged partition followed by the unprivileged one.\<close>

definition container_pages :: "Algorithm \<Rightarrow> int list" where
  "container_pages a =
     (if algoFunc a = LFRU
      then (let lf = (case lfruData (data a) of None \<Rightarrow> mkLFRUData 0 | Some lf \<Rightarrow> lf)
            in map page (frames (privileged lf) @ frames (unprivileged lf)))
      else map page (pageTable (data a)))"

definition nodup :: "int multiset \<Rightarrow> bool" where
  "nodup M \<longleftrightarrow> (\<forall>p. p \<noteq> -1 \<longrightarrow> count M p \<le> 1)"

lemma resident_container: "resident a = mset (container_pages a)"
  by (simp add: resident_def container_pages_def lpages_def ppages_def pages_def Let_def)

lemma nodup_add: "nodup (add_mset x M) \<longleftrightarrow> nodup M \<and> (x \<noteq> -1 \<longrightarrow> x \<notin># M)"
proof
  assume n: "nodup (add_mset x M)"
  have "nodup M"
    unfolding nodup_def
  proof (intro allI impI)
    fix p :: int assume "p \<noteq> -1"
    with n have "count (add_mset x M) p \<le> 1" unfolding nodup_def by blast
    then show "count M p \<le> 1" by (simp split: if_splits)
  qed
  moreover have "x \<notin># M" if "x \<noteq> -1"
  proof -
    from n that have "count (add_mset x M) x \<le> 1" unfolding nodup_def by blast
    then have "count M x = 0" by simp
    then show ?thesis by (simp add: count_eq_zero_iff)
  qed
  ultimately show "nodup M \<and> (x \<noteq> -1 \<longrightarrow> x \<notin># M)" by simp
next
  assume a: "nodup M \<and> (x \<noteq> -1 \<longrightarrow> x \<notin># M)"
  show "nodup (add_mset x M)"
    unfolding nodup_def
  proof (intro allI impI)
    fix p :: int assume p: "p \<noteq> -1"
    show "count (add_mset x M) p \<le> 1"
    proof (cases "p = x")
      case True
      with a p have "count M x = 0" by (simp add: count_eq_zero_iff)
      with True show ?thesis by simp
    next
      case False
      with a p show ?thesis by (simp add: nodup_def)
    qed
  qed
qed

lemma nodup_distinct: "nodup (mset ps) \<longleftrightarrow> distinct (filter (\<lambda>p. p \<noteq> -1) ps)"
  by (induction ps) (auto simp: nodup_add, simp add: nodup_def)

lemma nodup_diff: "nodup M \<Longrightarrow> nodup (M - N)"
  unfolding nodup_def by (auto intro: le_trans [OF diff_le_self])

lemma mstep_nodup_aux:
  assumes "nodup M" "ref \<notin># M"
  shows "nodup (add_mset ref (M - {#v#}))"
  using assms nodup_diff [of M "{#v#}"]
  by (auto simp: nodup_add dest: in_diffD)


lemma mstep_nodup:
  assumes "mstep ref M fault M'" "nodup M"
  shows "nodup M'"
proof (cases "ref \<in># M")
  case True
  with assms show ?thesis by (simp add: mstep_def)
next
  case False
  with assms(1) obtain v where "M' = add_mset ref (M - {#v#})"
    by (auto simp: mstep_def)
  with mstep_nodup_aux [OF assms(2) False] show ?thesis by simp
qed

lemma astep_mstep:
  assumes "wf_alg (numFrames s) a" "0 < numFrames s" "astep s lo hi a a'" "selected a"
  shows "\<exists>fault. mstep (lastPageRef s) (resident a) fault (resident a') \<and>
           misses (data a') = misses (data a) + (if fault then 1 else 0) \<and>
           hits (data a') = hits (data a) + (if fault then 0 else 1) \<and>
           algoFunc a' = algoFunc a \<and> selected a' \<and> wf_alg (numFrames s) a'"
proof -
  from assms(3,4) obtain e fault d' e' where
    e: "0 \<le> clockHand e"
    and i: "invoke (algoFunc a) (s\<lparr>env := e\<rparr>) (data a) = Some (fault, d', e')"
    and a': "a' = a\<lparr>data := bump fault d'\<rparr>"
    unfolding astep_def by auto
  from invoke_ok [of "s\<lparr>env := e\<rparr>" a] assms(1,2) e i
  have "invoke_post (s\<lparr>env := e\<rparr>) a fault d' e'" by auto
  then show ?thesis
    unfolding invoke_post_def a' using assms(4)
    by (intro exI [of _ fault]) (simp add: bump_def)
qed

lemma astep_unselected: "astep s lo hi a a' \<Longrightarrow> \<not> selected a \<Longrightarrow> a' = a"
  by (simp add: astep_def)

lemma resident_fresh:
  "nodup (resident (mkAlgorithm nF now np))"
proof -
  have "set (container_pages (mkAlgorithm nF now np)) \<subseteq> {-1}"
    by (auto simp: container_pages_def mkAlgorithm_def mkAlgorithmData_def mkLFRUData_def
                   mkPartition_def mkFrame_def Let_def)
  then have "filter (\<lambda>p. p \<noteq> -1) (container_pages (mkAlgorithm nF now np)) = []"
    by (auto simp: filter_empty_conv)
  then show ?thesis by (simp add: resident_container nodup_distinct)
qed

lemma flags_only_resident: "flags_only a a' \<Longrightarrow> resident a' = resident a"
  using flags_only_data [of a a'] by (simp add: resident_def)

text \<open>
  Claim C3. For every frame count, trace, selection and number of processed references
  (\<open>maxCalls\<close> stops the run after any number of steps, so this is the state after every
  step), the run is defined and in every policy's container the page numbers other than
  the empty marker \<open>-1\<close> are pairwise distinct; for LFRU the container is the two
  partitions together, so no page is in both.
\<close>

theorem no_duplicate_residency:
  assumes "0 \<le> clockHand e" "algoCode \<in> set ''ORFLCNAMnmlfa''"
  shows "\<exists>s'. simulate e nframes maxCalls refs algoCode = Some s' \<and>
           (\<forall>a \<in> set (algorithms s'). distinct (filter (\<lambda>p. p \<noteq> -1) (container_pages a))) \<and>
           (\<forall>a \<in> set (algorithms s'). \<forall>lf p.
               algoFunc a = LFRU \<and> lfruData (data a) = Some lf \<and> p \<noteq> -1 \<longrightarrow>
               \<not> (hasPage (privileged lf) p \<and> hasPage (unprivileged lf) p))"
proof -
  from simulate_start [OF assms, where nframes = nframes and maxCalls = maxCalls and refs = refs]
  obtain s0 where
    st: "simulate e nframes maxCalls refs algoCode = runSimulation s0" "wf_sim s0"
      "list_all2 flags_only
         (algorithms (setConfiguration nframes maxCalls False False (newSimulator e)))
         (algorithms s0)"
    by blast
  let ?s1 = "s0\<lparr>counter := 0, maxPageCalls := min (maxPageCalls s0) (int (length (pageRefs s0)))\<rparr>"
  define I where "I s \<longleftrightarrow> (\<forall>a \<in> set (algorithms s). nodup (resident a))" for s :: Sim
  have wf1: "wf_sim ?s1" using st(2) by (simp add: wf_sim_def)
  have I1: "I ?s1"
    unfolding I_def
  proof
    fix a assume "a \<in> set (algorithms ?s1)"
    then have "a \<in> set (algorithms s0)" by simp
    from list_all2_in_right [OF st(3) this] obtain a0 where
      a0: "a0 \<in> set (algorithms (setConfiguration nframes maxCalls False False (newSimulator e)))"
        "flags_only a0 a" by blast
    from a0(1) have "nodup (resident a0)"
      by (auto simp: setConfiguration_def initializeAlgorithms_def Let_def resident_fresh)
    with flags_only_resident [OF a0(2)] show "nodup (resident a)" by simp
  qed
  have "\<exists>s'. run_loop ?s1 = Some s' \<and> wf_sim s' \<and> I s' \<and> 0 \<le> counter s' \<and>
           \<not> (counter s' < maxPageCalls s' \<and> counter s' < int (length (pageRefs s'))) \<and>
           pageRefs s' = pageRefs ?s1 \<and> maxPageCalls s' = maxPageCalls ?s1 \<and>
           numFrames s' = numFrames ?s1"
  proof (rule run_loop_invariant [where I = I and s = ?s1, OF wf1 _ I1])
    show "0 \<le> counter ?s1" by simp
  next
    fix s :: Sim and algs' and e' :: Env
    let ?s = "s\<lparr>lastPageRef := pageNum (pageRefs s ! nat (counter s))\<rparr>"
    assume I: "I s" and wf: "wf_sim s"
      and as: "list_all2 (astep ?s (clockReads (env s)) (clockReads e')) (algorithms s) algs'"
    show "I (s\<lparr>lastPageRef := pageNum (pageRefs s ! nat (counter s)), env := e',
              algorithms := algs', counter := counter s + 1\<rparr>)"
      unfolding I_def
    proof
      fix a' assume "a' \<in> set (algorithms (s\<lparr>lastPageRef := pageNum (pageRefs s ! nat (counter s)),
              env := e', algorithms := algs', counter := counter s + 1\<rparr>))"
      then have "a' \<in> set algs'" by simp
      from list_all2_in_right [OF as this] obtain a where
        a: "a \<in> set (algorithms s)" "astep ?s (clockReads (env s)) (clockReads e') a a'" by blast
      from I a(1) have n: "nodup (resident a)" by (simp add: I_def)
      show "nodup (resident a')"
      proof (cases "selected a")
        case False
        with astep_unselected [OF a(2)] n show ?thesis by simp
      next
        case True
        from wf a(1) have "wf_alg (numFrames ?s) a" "0 < numFrames ?s"
          by (simp_all add: wf_sim_def)
        from astep_mstep [OF this a(2) True] n show ?thesis
          by (auto dest: mstep_nodup)
      qed
    qed
  qed
  then obtain s' where r: "run_loop ?s1 = Some s'" "I s'" by blast
  from r(2) have d: "\<forall>a \<in> set (algorithms s'). distinct (filter (\<lambda>p. p \<noteq> -1) (container_pages a))"
    by (simp add: I_def resident_container nodup_distinct)
  moreover have "\<forall>a \<in> set (algorithms s'). \<forall>lf p.
               algoFunc a = LFRU \<and> lfruData (data a) = Some lf \<and> p \<noteq> -1 \<longrightarrow>
               \<not> (hasPage (privileged lf) p \<and> hasPage (unprivileged lf) p)"
  proof (intro ballI allI impI)
    fix a lf and p :: int
    assume a: "a \<in> set (algorithms s')"
      and l: "algoFunc a = LFRU \<and> lfruData (data a) = Some lf \<and> p \<noteq> -1"
    from d a have "distinct (filter (\<lambda>p. p \<noteq> -1) (container_pages a))" by blast
    with l have "distinct (filter (\<lambda>p. p \<noteq> -1) (map page (frames (privileged lf))) @
                        filter (\<lambda>p. p \<noteq> -1) (map page (frames (unprivileged lf))))"
      by (simp add: container_pages_def)
    then have "set (filter (\<lambda>p. p \<noteq> -1) (map page (frames (privileged lf)))) \<inter>
               set (filter (\<lambda>p. p \<noteq> -1) (map page (frames (unprivileged lf)))) = {}"
      by simp
    with l show "\<not> (hasPage (privileged lf) p \<and> hasPage (unprivileged lf) p)"
      by (auto simp: hasPage_def list_ex_iff)
  qed
  ultimately show ?thesis using r(1) st(1) by (simp add: runSimulation_def)
qed


theorem no_duplicate_residency_witness:
  "0 \<le> clockHand example_env \<and> CHR ''a'' \<in> set ''ORFLCNAMnmlfa'' \<and>
   (\<exists>s'. simulate example_env 2 4 (example_refs [1, 2, 1, 3]) CHR ''a'' = Some s' \<and>
      (\<forall>a \<in> set (algorithms s'). distinct (filter (\<lambda>p. p \<noteq> -1) (container_pages a))) \<and>
      (\<forall>a \<in> set (algorithms s'). \<forall>lf p.
          algoFunc a = LFRU \<and> lfruData (data a) = Some lf \<and> p \<noteq> -1 \<longrightarrow>
          \<not> (hasPage (privileged lf) p \<and> hasPage (unprivileged lf) p)))"
proof -
  have h: "0 \<le> clockHand example_env" "CHR ''a'' \<in> set ''ORFLCNAMnmlfa''"
    by (simp_all add: example_env_def)
  from no_duplicate_residency [OF h, of 2 4 "example_refs [1, 2, 1, 3]"] h
  show ?thesis by blast
qed

section \<open>Demand paging on multisets and the exchange argument for OPTIMAL\<close>

text \<open>
  \<open>run M ps n\<close>: some demand-paging schedule serves the references \<open>ps\<close> from the
  resident multiset \<open>M\<close> with exactly \<open>n\<close> misses.  A hit leaves the residency
  unchanged; a miss replaces one resident entry (possibly the sentinel \<open>-1\<close> of an
  empty frame) by the referenced page.  \<open>nxt a ps\<close> is the distance of the next use
  of \<open>a\<close> in \<open>ps\<close>, the length of \<open>ps\<close> when \<open>a\<close> is never used again.
\<close>

inductive run :: "int multiset \<Rightarrow> int list \<Rightarrow> nat \<Rightarrow> bool" where
  run_Nil: "run M [] 0"
| run_hit: "p \<in># M \<Longrightarrow> run M ps n \<Longrightarrow> run M (p # ps) n"
| run_miss: "p \<notin># M \<Longrightarrow> v \<in># M \<Longrightarrow> run (add_mset p (M - {#v#})) ps n \<Longrightarrow> run M (p # ps) (Suc n)"

inductive_cases run_ConsE: "run M (p # ps) n"
inductive_cases run_NilE: "run M [] n"

definition nxt :: "int \<Rightarrow> int list \<Rightarrow> nat" where
  "nxt a ps = length (takeWhile (\<lambda>x. x \<noteq> a) ps)"

lemma nxt_Cons: "nxt a (p # ps) = (if p = a then 0 else Suc (nxt a ps))"
  by (simp add: nxt_def)

lemma sub_add_new:
  assumes "M \<subseteq># X" "p \<notin># M" "p \<in># X"
  shows "add_mset p M \<subseteq># X"
  unfolding subseteq_mset_def
proof
  fix a
  show "count (add_mset p M) a \<le> count X a"
  proof (cases "a = p")
    case True
    from assms(2) have "count M p = 0" by (simp add: not_in_iff)
    moreover from assms(3) have "0 < count X p" by simp
    ultimately show ?thesis using True by simp
  next
    case False
    with mset_subset_eq_count [OF assms(1), of a] show ?thesis by simp
  qed
qed

lemma sub_diff_mono: "M \<subseteq># X \<Longrightarrow> M - N \<subseteq># X - N"
  unfolding subseteq_mset_def by (auto intro: diff_le_mono)

lemma run_mono:
  "run Y ps n \<Longrightarrow> Y \<subseteq># X \<Longrightarrow> \<exists>m \<le> n. run X ps m"
proof (induction arbitrary: X rule: run.induct)
  case (run_Nil M)
  then show ?case by (auto intro: run.run_Nil)
next
  case (run_hit p M ps n)
  from run_hit.prems run_hit.hyps(1) have "p \<in># X" by (rule mset_subset_eqD)
  moreover from run_hit.IH [OF run_hit.prems] obtain m where "m \<le> n" "run X ps m" by blast
  ultimately show ?case by (auto intro: run.run_hit)
next
  case (run_miss p M v ps n)
  show ?case
  proof (cases "p \<in># X")
    case True
    have "add_mset p (M - {#v#}) \<subseteq># add_mset p M"
      by simp
    also have "add_mset p M \<subseteq># X"
      using run_miss.prems run_miss.hyps(1) True by (rule sub_add_new)
    finally have "add_mset p (M - {#v#}) \<subseteq># X" .
    from run_miss.IH [OF this] obtain m where "m \<le> n" "run X ps m" by blast
    with True show ?thesis by (auto intro!: run.run_hit exI [of _ m])
  next
    case False
    from run_miss.prems run_miss.hyps(2) have v: "v \<in># X" by (rule mset_subset_eqD)
    have "add_mset p (M - {#v#}) \<subseteq># add_mset p (X - {#v#})"
      using sub_diff_mono [OF run_miss.prems, of "{#v#}"] by simp
    from run_miss.IH [OF this] obtain m where "m \<le> n" "run (add_mset p (X - {#v#})) ps m" by blast
    with False v show ?thesis by (auto intro!: run.run_miss exI [of _ "Suc m"])
  qed
qed

text \<open>Two states that differ in one page: the costs differ by at most one.\<close>

lemma run_slack:
  "run (add_mset b T) ps n \<Longrightarrow> \<exists>m \<le> Suc n. run (add_mset a T) ps m"
proof (induction ps arbitrary: T a b n)
  case Nil
  then have "n = 0" by (auto elim: run_NilE)
  moreover have "run (add_mset a T) [] 0" by (rule run.run_Nil)
  ultimately show ?case by blast
next
  case (Cons p ps)
  let ?X = "add_mset a T" and ?Y = "add_mset b T"
  from Cons.prems consider
    (hit) "p \<in># ?Y" "run ?Y ps n"
    | (miss) v n' where "n = Suc n'" "p \<notin># ?Y" "v \<in># ?Y" "run (add_mset p (?Y - {#v#})) ps n'"
    by (auto elim: run_ConsE)
  then show ?case
  proof cases
    case hit
    show ?thesis
    proof (cases "p \<in># ?X")
      case True
      from Cons.IH [OF hit(2), of a] obtain m where m: "m \<le> Suc n" "run ?X ps m" by blast
      from True m(2) have "run ?X (p # ps) m" by (rule run.run_hit)
      with m(1) show ?thesis by blast
    next
      case False
      with hit(1) have pb: "p = b" by auto
      have "add_mset p (?X - {#a#}) = ?Y" by (simp add: pb)
      with hit(2) have r: "run (add_mset p (?X - {#a#})) ps n" by simp
      have "a \<in># ?X" by simp
      with False have "run ?X (p # ps) (Suc n)" using r by (rule run.run_miss)
      then show ?thesis by blast
    qed
  next
    case (miss v n')
    show ?thesis
    proof (cases "v = b")
      case True
      then have Y': "add_mset p (?Y - {#v#}) = add_mset p T" by simp
      show ?thesis
      proof (cases "p \<in># ?X")
        case hit: True
        with miss(2) have "p = a" by auto
        with Y' miss(4) have "run ?X ps n'" by simp
        with hit have "run ?X (p # ps) n'" by (rule run.run_hit)
        with miss(1) show ?thesis by (intro exI [of _ n']) simp
      next
        case False
        have "add_mset p (?X - {#a#}) = add_mset p T" by simp
        with Y' miss(4) have r: "run (add_mset p (?X - {#a#})) ps n'" by simp
        have "a \<in># ?X" by simp
        with False have "run ?X (p # ps) (Suc n')" using r by (rule run.run_miss)
        with miss(1) show ?thesis by (intro exI [of _ "Suc n'"]) simp
      qed
    next
      case False
      with miss(3) have vT: "v \<in># T" by auto
      have Y': "add_mset p (?Y - {#v#}) = add_mset b (add_mset p (T - {#v#}))"
        using vT by (simp add: add_mset_commute)
      from miss(4) Y' have rY: "run (add_mset b (add_mset p (T - {#v#}))) ps n'" by simp
      show ?thesis
      proof (cases "p \<in># ?X")
        case hit: True
        with miss(2) have pa: "p = a" by auto
        have X: "add_mset v (add_mset p (T - {#v#})) = ?X"
          using vT by (simp add: pa add_mset_commute)
        from Cons.IH [OF rY, of v] obtain m where m: "m \<le> Suc n'"
          "run (add_mset v (add_mset p (T - {#v#}))) ps m" by blast
        from m(2) X have "run ?X ps m" by simp
        with hit have "run ?X (p # ps) m" by (rule run.run_hit)
        with m(1) miss(1) show ?thesis by (intro exI [of _ m]) simp
      next
        case False
        have X': "add_mset a (add_mset p (T - {#v#})) = add_mset p (?X - {#v#})"
          using vT by (simp add: add_mset_commute)
        from Cons.IH [OF rY, of a] obtain m where m: "m \<le> Suc n'"
          "run (add_mset a (add_mset p (T - {#v#}))) ps m" by blast
        from m(2) X' have r: "run (add_mset p (?X - {#v#})) ps m" by simp
        have "v \<in># ?X" using vT by simp
        with False have "run ?X (p # ps) (Suc m)" using r by (rule run.run_miss)
        with m(1) miss(1) show ?thesis by (intro exI [of _ "Suc m"]) simp
      qed
    qed
  qed
qed


text \<open>If \<open>a\<close> is needed no later than \<open>b\<close>, holding \<open>a\<close> instead of \<open>b\<close> costs no more.\<close>

lemma run_dominate:
  assumes "run (add_mset b T) ps n" "nxt a ps \<le> nxt b ps" "a \<notin># T"
  shows "\<exists>m \<le> n. run (add_mset a T) ps m"
proof (cases "a = b")
  case True
  with assms(1) show ?thesis by blast
next
  case ab: False
  from assms show ?thesis
  proof (induction ps arbitrary: T n)
    case Nil
    then have "n = 0" by (auto elim: run_NilE)
    moreover have "run (add_mset a T) [] 0" by (rule run.run_Nil)
    ultimately show ?case by blast
  next
    case (Cons p ps)
    let ?X = "add_mset a T" and ?Y = "add_mset b T"
    from Cons.prems(2) ab have pb: "p \<noteq> b"
      by (auto simp: nxt_Cons split: if_splits)
    from Cons.prems(1) consider
      (hit) "p \<in># ?Y" "run ?Y ps n"
      | (miss) v n' where "n = Suc n'" "p \<notin># ?Y" "v \<in># ?Y" "run (add_mset p (?Y - {#v#})) ps n'"
      by (auto elim: run_ConsE)
    then show ?case
    proof cases
      case hit
      with pb have pT: "p \<in># T" by auto
      with Cons.prems(3) have pa: "p \<noteq> a" by auto
      with pb Cons.prems(2) have "nxt a ps \<le> nxt b ps" by (simp add: nxt_Cons)
      from Cons.IH [OF hit(2) this Cons.prems(3)] obtain m where m: "m \<le> n" "run ?X ps m" by blast
      have "p \<in># ?X" using pT by simp
      then have "run ?X (p # ps) m" using m(2) by (rule run.run_hit)
      with m(1) show ?thesis by blast
    next
      case (miss v n')
      from miss(2) have pT: "p \<notin># T" by auto
      show ?thesis
      proof (cases "p = a")
        case True
        have hitX: "p \<in># ?X" by (simp add: True)
        show ?thesis
        proof (cases "v = b")
          case vb: True
          then have "add_mset p (?Y - {#v#}) = ?X" by (simp add: True)
          with miss(4) have "run ?X ps n'" by simp
          with hitX have "run ?X (p # ps) n'" by (rule run.run_hit)
          with miss(1) show ?thesis by (intro exI [of _ n']) simp
        next
          case False
          with miss(3) have vT: "v \<in># T" by auto
          have Y': "add_mset p (?Y - {#v#}) = add_mset b (add_mset p (T - {#v#}))"
            using vT by (simp add: add_mset_commute)
          have X: "add_mset v (add_mset p (T - {#v#})) = ?X"
            using vT by (simp add: True add_mset_commute)
          from miss(4) Y' have "run (add_mset b (add_mset p (T - {#v#}))) ps n'" by simp
          from run_slack [OF this, of v] obtain m where m: "m \<le> Suc n'"
            "run (add_mset v (add_mset p (T - {#v#}))) ps m" by blast
          from m(2) X have "run ?X ps m" by simp
          with hitX have "run ?X (p # ps) m" by (rule run.run_hit)
          with m(1) miss(1) show ?thesis by (intro exI [of _ m]) simp
        qed
      next
        case pa: False
        with pT have missX: "p \<notin># ?X" by simp
        from pa pb Cons.prems(2) have ord: "nxt a ps \<le> nxt b ps" by (simp add: nxt_Cons)
        show ?thesis
        proof (cases "v = b")
          case True
          then have "add_mset p (?Y - {#v#}) = add_mset p (?X - {#a#})" by simp
          with miss(4) have r: "run (add_mset p (?X - {#a#})) ps n'" by simp
          have "a \<in># ?X" by simp
          with missX have "run ?X (p # ps) (Suc n')" using r by (rule run.run_miss)
          with miss(1) show ?thesis by (intro exI [of _ "Suc n'"]) simp
        next
          case False
          with miss(3) have vT: "v \<in># T" by auto
          let ?T = "add_mset p (T - {#v#})"
          have Y': "add_mset p (?Y - {#v#}) = add_mset b ?T"
            using vT by (simp add: add_mset_commute)
          have X': "add_mset a ?T = add_mset p (?X - {#v#})"
            using vT by (simp add: add_mset_commute)
          have aT: "a \<notin># ?T"
            using Cons.prems(3) pa by (auto dest: in_diffD)
          from miss(4) Y' have "run (add_mset b ?T) ps n'" by simp
          from Cons.IH [OF this ord aT] obtain m where m: "m \<le> n'" "run (add_mset a ?T) ps m"
            by blast
          from m(2) X' have r: "run (add_mset p (?X - {#v#})) ps m" by simp
          have "v \<in># ?X" using vT by simp
          with missX have "run ?X (p # ps) (Suc m)" using r by (rule run.run_miss)
          with m(1) miss(1) show ?thesis by (intro exI [of _ "Suc m"]) simp
        qed
      qed
    qed
  qed
qed

text \<open>The next use in a prefix of the future.\<close>

lemma nxt_le_length: "nxt a ps \<le> length ps"
  unfolding nxt_def by (rule length_takeWhile_le)

lemma nxt_notin: "a \<notin> set ps \<Longrightarrow> nxt a ps = length ps"
  unfolding nxt_def by (induction ps) auto

lemma nxt_take: "nxt a (take k ps) = min k (nxt a ps)"
proof (induction ps arbitrary: k)
  case Nil
  then show ?case by (simp add: nxt_def)
next
  case (Cons p ps)
  then show ?case by (cases k) (simp_all add: nxt_Cons nxt_def)
qed

lemma nxt_take_mono: "nxt a ps \<le> nxt b ps \<Longrightarrow> nxt a (take k ps) \<le> nxt b (take k ps)"
  by (simp add: nxt_take min_le_iff_disj)


lemma belady_step:
  assumes nd: "nodup M" and miss: "p \<notin># M" and x: "x \<in># M"
    and best: "\<forall>u. u \<in># M \<longrightarrow> nxt u ps \<le> nxt x ps"
    and fill: "-1 \<in># M \<longrightarrow> x = -1"
    and r: "run M (p # ps) n"
  shows "\<exists>m. run (add_mset p (M - {#x#})) ps m \<and> Suc m \<le> n"
proof -
  from r miss obtain v n' where v: "n = Suc n'" "v \<in># M" "run (add_mset p (M - {#v#})) ps n'"
    by (auto elim: run_ConsE)
  show ?thesis
  proof (cases "v = x")
    case True
    with v show ?thesis by auto
  next
    case False
    have v1: "v \<noteq> -1" using fill v(2) False by auto
    have vp: "v \<noteq> p" using v(2) miss by auto
    let ?T = "add_mset p (M - {#x#} - {#v#})"
    have xin: "x \<in># M - {#v#}" using x False by (auto simp: in_diff_count)
    have vin: "v \<in># M - {#x#}" using v(2) False by (auto simp: in_diff_count)
    have Y: "add_mset x ?T = add_mset p (M - {#v#})"
    proof -
      have e: "add_mset x (M - {#v#} - {#x#}) = M - {#v#}" using xin by (rule insert_DiffM)
      have c: "M - {#x#} - {#v#} = M - {#v#} - {#x#}" by (rule multiset_eqI) simp
      have "add_mset x ?T = add_mset p (add_mset x (M - {#x#} - {#v#}))"
        by (rule add_mset_commute)
      also have "\<dots> = add_mset p (M - {#v#})" unfolding c e ..
      finally show ?thesis .
    qed
    have X: "add_mset v ?T = add_mset p (M - {#x#})"
    proof -
      have e: "add_mset v (M - {#x#} - {#v#}) = M - {#x#}" using vin by (rule insert_DiffM)
      have "add_mset v ?T = add_mset p (add_mset v (M - {#x#} - {#v#}))"
        by (rule add_mset_commute)
      also have "\<dots> = add_mset p (M - {#x#})" unfolding e ..
      finally show ?thesis .
    qed
    have "count M v \<le> 1" using nd v1 by (simp add: nodup_def)
    then have "v \<notin># M - {#x#} - {#v#}" using False by (auto simp: in_diff_count)
    with vp have vT: "v \<notin># ?T" by simp
    from v(3) have "run (add_mset x ?T) ps n'" unfolding Y .
    from run_dominate [OF this _ vT] best v(2) obtain m where "m \<le> n'" "run (add_mset v ?T) ps m"
      by blast
    then have "run (add_mset p (M - {#x#})) ps m" "Suc m \<le> n" unfolding X using v(1) by simp_all
    then show ?thesis by (intro exI [of _ m]) simp
  qed
qed

section \<open>The victim choice of \<open>optimal\<close>\<close>

text \<open>
  The forward scan of \<open>optimal\<close> computes \<open>nxt\<close> on the rest of the trace (shifted by
  \<open>counter + 1\<close>, or \<open>INT_MAX\<close> for a page never used again); the loop keeps the first
  frame with the largest value.
\<close>

lemma find_if_nxt:
  "find_if (\<lambda>r. pageNum r = pg) xs =
     (if pg \<in> set (map pageNum xs) then Some (nxt pg (map pageNum xs)) else None)"
  by (induction xs) (auto simp: nxt_Cons)

lemma nxt_less_length: "a \<in> set ps \<Longrightarrow> nxt a ps < length ps"
  by (induction ps) (auto simp: nxt_Cons)

lemma next_use_nonneg: "0 \<le> cnt \<Longrightarrow> 0 \<le> next_use refs cnt pg"
  by (simp add: next_use_def INT_MAX_def split: option.splits)

lemma next_use_order:
  assumes c: "0 \<le> cnt" and l: "int (length refs) \<le> INT_MAX"
    and le: "next_use refs cnt u \<le> next_use refs cnt x"
  shows "nxt u (map pageNum (drop (nat cnt + 1) refs)) \<le> nxt x (map pageNum (drop (nat cnt + 1) refs))"
proof -
  let ?fut = "map pageNum (drop (nat cnt + 1) refs)"
  have nu: "next_use refs cnt pg = (if pg \<in> set ?fut then cnt + 1 + int (nxt pg ?fut) else INT_MAX)" for pg
    by (simp add: next_use_def find_if_nxt)
  show ?thesis
  proof (cases "x \<in> set ?fut")
    case False
    then have "nxt x ?fut = length ?fut" by (rule nxt_notin)
    with nxt_le_length [of u ?fut] show ?thesis by simp
  next
    case True
    from nxt_less_length [OF True] have "nxt x ?fut < length refs - (nat cnt + 1)" by simp
    then have "cnt + 1 + int (nxt x ?fut) < int (length refs)" using c by linarith
    with l have lt: "next_use refs cnt x < INT_MAX" using True by (simp add: nu)
    with le have "u \<in> set ?fut" using nu [of u] by (auto split: if_splits)
    with le True show ?thesis by (simp add: nu)
  qed
qed

lemma fold_max_inv:
  fixes g :: "nat \<Rightarrow> int"
  assumes "\<And>j. 0 \<le> g j"
  defines "f \<equiv> \<lambda>i (m, v). let x = g i in if x > m then (x, i) else (m, v)"
  shows "(\<forall>j<k. g j \<le> fst (fold f [0..<k] (-1, 0))) \<and>
         (0 < k \<longrightarrow> fst (fold f [0..<k] (-1, 0)) = g (snd (fold f [0..<k] (-1, 0))))"
proof (induction k)
  case 0
  show ?case by simp
next
  case (Suc k)
  obtain m v where mv: "fold f [0..<k] (-1, 0) = (m, v)"
    by (cases "fold f [0..<k] (-1, 0)")
  have k0: "k = 0 \<Longrightarrow> m = -1" using mv by simp
  from Suc have ih: "\<forall>j<k. g j \<le> m" "0 < k \<longrightarrow> m = g v"
    unfolding mv fst_conv snd_conv by blast+
  have "fold f [0..<Suc k] (-1, 0) = f k (m, v)" by (simp add: mv)
  also have "\<dots> = (if g k > m then (g k, k) else (m, v))" by (simp add: f_def Let_def)
  finally have st: "fold f [0..<Suc k] (-1, 0) = (if g k > m then (g k, k) else (m, v))" .
  show ?case
  proof (cases "g k > m")
    case True
    with ih show ?thesis unfolding st by (auto simp: less_Suc_eq)
  next
    case False
    with k0 assms(1) [of k] have "0 < k" by (cases k) auto
    with False ih show ?thesis unfolding st by (auto simp: less_Suc_eq)
  qed
qed

lemma optimal_victim_max:
  assumes "0 \<le> cnt" "j < length tbl"
  shows "next_use refs cnt (page (tbl ! j)) \<le>
         next_use refs cnt (page (tbl ! snd (optimal_victim refs cnt tbl)))"
proof -
  let ?g = "\<lambda>i. next_use refs cnt (page (tbl ! i))"
  have g: "\<And>j. 0 \<le> ?g j" using assms(1) by (rule next_use_nonneg)
  from assms(2) have pos: "0 < length tbl" by (cases tbl) simp_all
  from fold_max_inv [of ?g "length tbl", OF g] pos assms(2)
  have "?g j \<le> fst (optimal_victim refs cnt tbl)"
    "fst (optimal_victim refs cnt tbl) = ?g (snd (optimal_victim refs cnt tbl))"
    unfolding optimal_victim_def Let_def by blast+
  then show ?thesis by simp
qed

lemma optimal_belady:
  assumes ne: "pageTable d \<noteq> []" and o: "optimal refs cnt ref now d = Some (True, d')"
    and c: "0 \<le> cnt" and l: "int (length refs) \<le> INT_MAX"
  shows "\<exists>i < length (pages d). pages d' = (pages d)[i := ref] \<and>
           (-1 \<in> set (pages d) \<longrightarrow> pages d ! i = -1) \<and>
           (-1 \<notin> set (pages d) \<longrightarrow>
              (\<forall>j < length (pages d).
                 nxt (pages d ! j) (map pageNum (drop (nat cnt + 1) refs))
                 \<le> nxt (pages d ! i) (map pageNum (drop (nat cnt + 1) refs))))"
proof (cases "find_if (\<lambda>f. page f = -1) (pageTable d)")
  case (Some i)
  from o have r: "find_if (\<lambda>f. page f = ref) (pageTable d) = None"
    by (auto simp: optimal_def split: option.splits)
  from o r Some have d': "d' = set_frame i (\<lambda>f. f\<lparr>page := ref, time := now, extra := cnt\<rparr>) d"
    by (simp add: optimal_def)
  from find_if_page_Some [OF Some] have i: "i < length (pageTable d)" "pages d ! i = -1"
    "-1 \<in> set (pages d)" by simp_all
  have "pages d' = (pages d)[i := ref]" unfolding d' by (simp add: set_frame_def pages_def map_update)
  with i show ?thesis by (intro exI [of _ i]) (auto simp: pages_def)
next
  case None
  then have no: "-1 \<notin> set (pages d)" by (simp add: find_if_page_None)
  from o have r: "find_if (\<lambda>f. page f = ref) (pageTable d) = None"
    by (auto simp: optimal_def split: option.splits)
  let ?v = "snd (optimal_victim refs cnt (pageTable d))"
  from o r None ne have d': "d' = set_frame ?v (\<lambda>f. f\<lparr>page := ref, time := now, extra := cnt\<rparr>) (push_victim ?v d)"
    by (simp add: optimal_def Let_def)
  have v: "?v < length (pageTable d)" using ne by (rule optimal_victim_bound)
  have p: "pages d' = (pages d)[?v := ref]"
    unfolding d' by (simp add: set_frame_def push_victim_def pages_def map_update)
  have "nxt (pages d ! j) (map pageNum (drop (nat cnt + 1) refs))
          \<le> nxt (pages d ! ?v) (map pageNum (drop (nat cnt + 1) refs))" if "j < length (pages d)" for j
  proof -
    from that have j: "j < length (pageTable d)" by (simp add: pages_def)
    from next_use_order [OF c l optimal_victim_max [OF c j]] j v show ?thesis
      by (simp add: pages_def)
  qed
  with v p no show ?thesis by (intro exI [of _ ?v]) (simp add: pages_def)
qed

section \<open>The engine's steps as demand-paging steps\<close>

lemma mstep_run:
  assumes "mstep p M fault M'" "run M' ps n"
  shows "run M (p # ps) (n + (if fault then 1 else 0))"
proof (cases "p \<in># M")
  case True
  with assms have "\<not> fault" "M' = M" by (simp_all add: mstep_def)
  with assms(2) True show ?thesis by (simp add: run.run_hit)
next
  case False
  with assms(1) obtain v where v: "fault" "v \<in># M" "M' = add_mset p (M - {#v#})"
    by (auto simp: mstep_def)
  from assms(2) have "run (add_mset p (M - {#v#})) ps n" unfolding v(3) .
  with False v(2) have "run M (p # ps) (Suc n)" by (rule run.run_miss)
  with v(1) show ?thesis by simp
qed

lemma remaining_take:
  "remaining (s\<lparr>counter := counter s + 1\<rparr>) =
     take (nat (maxPageCalls s) - nat (counter s + 1))
          (map pageNum (drop (nat (counter s + 1)) (pageRefs s)))"
  by (simp add: remaining_def drop_take take_map)

lemma remaining_subset: "set (remaining s) \<subseteq> pageNum ` set (pageRefs s)"
  unfolding remaining_def by (auto dest!: in_set_dropD in_set_takeD)

text \<open>One call of \<open>optimal\<close> by the engine does at least as well as any one step.\<close>

lemma optimal_astep:
  assumes wf: "wf_alg (numFrames s) a" and nf: "0 < numFrames s"
    and ast: "astep s lo hi a a'" and sel: "selected a" and o: "algoFunc a = OPTIMAL"
    and c: "0 \<le> counter s" and l: "int (length (pageRefs s)) \<le> INT_MAX"
    and nd: "nodup (resident a)"
    and rest: "rest = take k (map pageNum (drop (nat (counter s) + 1) (pageRefs s)))"
    and nm: "-1 \<notin> set rest"
    and r: "run (resident a) (lastPageRef s # rest) n"
  shows "\<exists>m. run (resident a') rest m \<and> misses (data a') + int m \<le> misses (data a) + int n"
proof -
  let ?d = "data a" and ?p = "lastPageRef s"
  let ?fut = "map pageNum (drop (nat (counter s) + 1) (pageRefs s))"
  from ast sel o obtain now fault d' where
    i: "optimal (pageRefs s) (counter s) ?p now ?d = Some (fault, d')"
    and a': "a' = a\<lparr>data := bump fault d'\<rparr>"
    unfolding astep_def by (auto simp: invoke_def Let_def)
  from wf nf have ne: "pageTable ?d \<noteq> []" by (auto simp: wf_alg_def)
  from optimal_tstep [OF ne i] have t: "tstep ?p ?d fault d'" .
  have M: "resident a = mset (pages ?d)" using o by (simp add: resident_def)
  have M': "resident a' = mset (pages d')" using o unfolding a'
    by (simp add: resident_def bump_def pages_def)
  have ms: "misses (data a') = misses ?d + (if fault then 1 else 0)"
    using t unfolding a' by (simp add: bump_def tstep_def)
  show ?thesis
  proof (cases "?p \<in> set (pages ?d)")
    case True
    with t have "\<not> fault" "pages d' = pages ?d" by (simp_all add: tstep_def)
    moreover from r True have "run (resident a) rest n" unfolding M
      by (auto elim: run_ConsE)
    ultimately show ?thesis using ms M M' by (intro exI [of _ n]) simp
  next
    case False
    with t have f: "fault" by (simp add: tstep_def)
    from i f have i': "optimal (pageRefs s) (counter s) ?p now ?d = Some (True, d')"
      by simp
    from optimal_belady [OF ne i' c l] obtain x where
      x: "x < length (pages ?d)" "pages d' = (pages ?d)[x := ?p]"
        "-1 \<in> set (pages ?d) \<longrightarrow> pages ?d ! x = -1"
        "-1 \<notin> set (pages ?d) \<longrightarrow> (\<forall>j < length (pages ?d). nxt (pages ?d ! j) ?fut \<le> nxt (pages ?d ! x) ?fut)"
      by blast
    let ?x = "pages ?d ! x"
    have M'': "resident a' = add_mset ?p (resident a - {#?x#})"
      unfolding M M' x(2) by (rule mset_update [OF x(1)])
    have xin: "?x \<in># resident a" unfolding M using x(1) by simp
    have best: "\<forall>u. u \<in># resident a \<longrightarrow> nxt u rest \<le> nxt ?x rest"
    proof (intro allI impI)
      fix u assume "u \<in># resident a"
      then have "u \<in> set (pages ?d)" unfolding M by simp
      then obtain j where j: "j < length (pages ?d)" "u = pages ?d ! j"
        by (auto simp: in_set_conv_nth)
      show "nxt u rest \<le> nxt ?x rest"
      proof (cases "-1 \<in> set (pages ?d)")
        case True
        with x(3) have "?x = -1" by simp
        with nm have "nxt ?x rest = length rest" by (simp add: nxt_notin)
        with nxt_le_length [of u rest] show ?thesis by simp
      next
        case False
        with x(4) j have "nxt u ?fut \<le> nxt ?x ?fut" by simp
        then show ?thesis unfolding rest by (rule nxt_take_mono)
      qed
    qed
    have fill: "-1 \<in># resident a \<longrightarrow> ?x = -1" unfolding M using x(3) by simp
    have miss: "?p \<notin># resident a" unfolding M using False by simp
    from belady_step [OF nd miss xin best fill r] obtain m where
      "run (add_mset ?p (resident a - {#?x#})) rest m" "Suc m \<le> n" by blast
    then have "run (resident a') rest m" "misses (data a') + int m \<le> misses ?d + int n"
      unfolding M'' using ms f by simp_all
    then show ?thesis by (intro exI [of _ m]) simp
  qed
qed

definition initial_resident :: "int \<Rightarrow> Policy \<Rightarrow> int multiset" where
  "initial_resident nF pol =
     replicate_mset
       (if pol = LFRU then nat (PRIVILEGED_PARTITION_SIZE + UNPRIVILEGED_PARTITION_SIZE) else nat nF)
       (-1)"

lemma replicate_mset_add: "replicate_mset m x + replicate_mset n x = replicate_mset (m + n) x"
  by (induction m) simp_all

lemma resident_mkAlgorithm:
  "resident (mkAlgorithm nF now np) = initial_resident nF (snd np)"
proof (cases "snd np = LFRU")
  case False
  then have "resident (mkAlgorithm nF now np) = mset (pages (data (mkAlgorithm nF now np)))"
    by (simp add: resident_def mkAlgorithm_fresh)
  with False show ?thesis by (simp add: mkAlgorithm_fresh initial_resident_def)
next
  case True
  then show ?thesis
    by (simp add: resident_def initial_resident_def mkAlgorithm_def mkAlgorithmData_def
        mkLFRUData_def mkPartition_def mkFrame_def lpages_def ppages_def Let_def
        PRIVILEGED_PARTITION_SIZE_def UNPRIVILEGED_PARTITION_SIZE_def replicate_mset_add)
qed

lemma take_min_length: "take (nat (min mc (int (length xs)))) xs = take (nat mc) xs"
  by (cases "mc \<le> int (length xs)") (simp_all add: min_def)

lemma select_optimal:
  assumes "c = CHR ''O'' \<or> c = CHR ''a''"
    and "algorithms s = map (mkAlgorithm nF now) policy_table"
    and "selectAlgorithm c s = Inr s'"
  shows "(\<forall>a \<in> set (algorithms s'). algoFunc a = OPTIMAL \<longrightarrow> selected a) \<and>
         (\<exists>a \<in> set (algorithms s'). algoFunc a = OPTIMAL)"
  using assms(1)
proof
  assume "c = CHR ''O''"
  with assms(2,3) show ?thesis
    by (auto simp: selectAlgorithm_def Let_def policy_table_def deselect_all_def select_at_def
          mkAlgorithm_def)
next
  assume "c = CHR ''a''"
  with assms(2,3) show ?thesis
    by (auto simp: selectAlgorithm_def Let_def policy_table_def deselect_all_def select_at_def
          mkAlgorithm_def)
qed

text \<open>What a run establishes for each selected policy: its misses are the cost of one
  demand-paging schedule of the processed references from the initial residency.\<close>

lemma policy_run:
  assumes "0 \<le> clockHand e" "algoCode \<in> set ''ORFLCNAMnmlfa''"
  shows "\<exists>s'. simulate e nframes maxCalls refs algoCode = Some s' \<and>
           (\<forall>a \<in> set (algorithms s'). selected a \<longrightarrow>
              0 \<le> misses (data a) \<and>
              run (initial_resident (max 1 nframes) (algoFunc a))
                  (map pageNum (take (nat maxCalls) refs)) (nat (misses (data a))))"
proof -
  from simulate_start [OF assms, where nframes = nframes and maxCalls = maxCalls and refs = refs]
  obtain s0 where
    st: "simulate e nframes maxCalls refs algoCode = runSimulation s0" "wf_sim s0"
      "pageRefs s0 = refs" "maxPageCalls s0 = maxCalls"
      "list_all2 flags_only
         (algorithms (setConfiguration nframes maxCalls False False (newSimulator e)))
         (algorithms s0)"
    by blast
  let ?s1 = "s0\<lparr>counter := 0, maxPageCalls := min (maxPageCalls s0) (int (length (pageRefs s0)))\<rparr>"
  let ?ps = "map pageNum (take (nat maxCalls) refs)"
  let ?R = "\<lambda>a. initial_resident (max 1 nframes) (algoFunc a)"
  define I where "I s \<longleftrightarrow> (\<forall>a \<in> set (algorithms s). selected a \<longrightarrow>
      0 \<le> misses (data a) \<and>
      (\<forall>n. run (resident a) (remaining s) n \<longrightarrow> run (?R a) ?ps (n + nat (misses (data a)))))"
    for s :: Sim
  have wf1: "wf_sim ?s1" using st(2) by (simp add: wf_sim_def)
  have r1: "remaining ?s1 = ?ps"
    using st(3,4) by (simp add: remaining_def take_min_length)
  have I1: "I ?s1"
    unfolding I_def
  proof (intro ballI impI)
    fix a assume "a \<in> set (algorithms ?s1)"
    then have "a \<in> set (algorithms s0)" by simp
    from list_all2_in_right [OF st(5) this] obtain a0 where
      a0: "a0 \<in> set (algorithms (setConfiguration nframes maxCalls False False (newSimulator e)))"
        "flags_only a0 a" by blast
    from a0(1) obtain now np where np: "a0 = mkAlgorithm (max 1 nframes) now np"
      by (auto simp: setConfiguration_def initializeAlgorithms_def Let_def)
    from flags_only_data [OF a0(2)] flags_only_resident [OF a0(2)]
    have "misses (data a) = 0" "resident a = ?R a"
      unfolding np by (simp_all add: mkAlgorithm_fresh resident_mkAlgorithm)
    then show "0 \<le> misses (data a) \<and>
      (\<forall>n. run (resident a) (remaining ?s1) n \<longrightarrow> run (?R a) ?ps (n + nat (misses (data a))))"
      unfolding r1 by simp
  qed
  have "\<exists>s'. run_loop ?s1 = Some s' \<and> wf_sim s' \<and> I s' \<and> 0 \<le> counter s' \<and>
           \<not> (counter s' < maxPageCalls s' \<and> counter s' < int (length (pageRefs s'))) \<and>
           pageRefs s' = pageRefs ?s1 \<and> maxPageCalls s' = maxPageCalls ?s1 \<and>
           numFrames s' = numFrames ?s1"
  proof (rule run_loop_invariant [where I = I and s = ?s1, OF wf1 _ I1])
    show "0 \<le> counter ?s1" by simp
  next
    fix s :: Sim and algs' and e' :: Env
    let ?p = "pageNum (pageRefs s ! nat (counter s))"
    let ?s = "s\<lparr>lastPageRef := ?p\<rparr>"
    let ?s2 = "s\<lparr>lastPageRef := ?p, env := e', algorithms := algs', counter := counter s + 1\<rparr>"
    assume I: "I s" and wf: "wf_sim s"
      and c: "0 \<le> counter s" "counter s < maxPageCalls s" "counter s < int (length (pageRefs s))"
      and as: "list_all2 (astep ?s (clockReads (env s)) (clockReads e')) (algorithms s) algs'"
    have rem: "remaining s = ?p # remaining ?s2"
      using remaining_step [OF c] by (simp add: remaining_def)
    show "I ?s2"
      unfolding I_def
    proof (intro ballI impI)
      fix a' assume "a' \<in> set (algorithms ?s2)" and sel': "selected a'"
      then have "a' \<in> set algs'" by simp
      from list_all2_in_right [OF as this] obtain a where
        a: "a \<in> set (algorithms s)" "astep ?s (clockReads (env s)) (clockReads e') a a'" by blast
      from astep_counters [OF a(2)] sel' have sel: "selected a" and af: "algoFunc a' = algoFunc a"
        by simp_all
      from I a(1) sel have Ia: "0 \<le> misses (data a)"
        "\<And>n. run (resident a) (remaining s) n \<Longrightarrow> run (?R a) ?ps (n + nat (misses (data a)))"
        by (simp_all add: I_def)
      from wf a(1) have "wf_alg (numFrames ?s) a" "0 < numFrames ?s"
        by (simp_all add: wf_sim_def)
      from astep_mstep [OF this a(2) sel] obtain fault where
        f: "mstep ?p (resident a) fault (resident a')"
          "misses (data a') = misses (data a) + (if fault then 1 else 0)"
        by auto
      have "run (?R a') ?ps (n + nat (misses (data a')))" if "run (resident a') (remaining ?s2) n" for n
      proof -
        from mstep_run [OF f(1) that] have "run (resident a) (remaining s) (n + (if fault then 1 else 0))"
          unfolding rem .
        from Ia(2) [OF this] have "run (?R a) ?ps (n + (if fault then 1 else 0) + nat (misses (data a)))" .
        moreover have "n + (if fault then 1 else 0) + nat (misses (data a)) = n + nat (misses (data a'))"
          using f(2) Ia(1) by (cases fault) (simp_all add: nat_add_distrib)
        ultimately show ?thesis unfolding af by simp
      qed
      moreover have "0 \<le> misses (data a')" using f(2) Ia(1) by simp
      ultimately show "0 \<le> misses (data a') \<and>
        (\<forall>n. run (resident a') (remaining ?s2) n \<longrightarrow> run (?R a') ?ps (n + nat (misses (data a'))))"
        by blast
    qed
  qed
  then obtain s' where r: "run_loop ?s1 = Some s'" "I s'" "0 \<le> counter s'"
    "\<not> (counter s' < maxPageCalls s' \<and> counter s' < int (length (pageRefs s')))" by blast
  from remaining_done [OF r(4,3)] have e: "remaining s' = []" .
  have "\<forall>a \<in> set (algorithms s'). selected a \<longrightarrow>
              0 \<le> misses (data a) \<and> run (?R a) ?ps (nat (misses (data a)))"
  proof (intro ballI impI)
    fix a assume "a \<in> set (algorithms s')" "selected a"
    with r(2) have "0 \<le> misses (data a)"
      "run (resident a) (remaining s') 0 \<longrightarrow> run (?R a) ?ps (0 + nat (misses (data a)))"
      unfolding I_def by blast+
    then show "0 \<le> misses (data a) \<and> run (?R a) ?ps (nat (misses (data a)))"
      unfolding e by (simp add: run.run_Nil)
  qed
  then show ?thesis using r(1) st(1) by (simp add: runSimulation_def)
qed

lemma list_all2_in_left:
  "list_all2 R xs ys \<Longrightarrow> x \<in> set xs \<Longrightarrow> \<exists>y \<in> set ys. R x y"
  by (induction rule: list_all2_induct) auto

lemma replicate_mset_mono: "m \<le> n \<Longrightarrow> replicate_mset m x \<subseteq># replicate_mset n x"
  by (simp add: subseteq_mset_def)

text \<open>What a run establishes for OPTIMAL: no demand-paging schedule of the processed
  references from the initial residency has fewer misses.\<close>

lemma optimal_run:
  assumes "0 \<le> clockHand e" and code: "algoCode = CHR ''O'' \<or> algoCode = CHR ''a''"
    and nm: "-1 \<notin> set (map pageNum refs)" and len: "int (length refs) \<le> INT_MAX"
  shows "\<exists>s'. simulate e nframes maxCalls refs algoCode = Some s' \<and>
           (\<exists>a \<in> set (algorithms s'). algoFunc a = OPTIMAL \<and> selected a) \<and>
           (\<forall>a \<in> set (algorithms s'). algoFunc a = OPTIMAL \<longrightarrow>
              (\<forall>n. run (initial_resident (max 1 nframes) OPTIMAL)
                      (map pageNum (take (nat maxCalls) refs)) n \<longrightarrow> misses (data a) \<le> int n))"
proof -
  from code have valid: "algoCode \<in> set ''ORFLCNAMnmlfa''" by auto
  let ?c = "(setConfiguration nframes maxCalls False False (newSimulator e))\<lparr>pageRefs := refs\<rparr>"
  from simulate_start [OF assms(1) valid, where nframes = nframes and maxCalls = maxCalls and refs = refs]
  obtain s0 where
    st: "selectAlgorithm algoCode ?c = Inr s0"
      "simulate e nframes maxCalls refs algoCode = runSimulation s0" "wf_sim s0"
      "pageRefs s0 = refs" "maxPageCalls s0 = maxCalls"
      "list_all2 flags_only
         (algorithms (setConfiguration nframes maxCalls False False (newSimulator e)))
         (algorithms s0)"
    by blast
  have "\<exists>now. algorithms ?c = map (mkAlgorithm (max 1 nframes) now) policy_table"
    by (rule exI [of _ "steadyClock e (clockReads (env (newSimulator e)))"])
       (simp add: setConfiguration_def initializeAlgorithms_def Let_def newSimulator_def)
  then obtain now where "algorithms ?c = map (mkAlgorithm (max 1 nframes) now) policy_table" ..
  from select_optimal [OF code this st(1)]
  have so: "\<And>a. a \<in> set (algorithms s0) \<Longrightarrow> algoFunc a = OPTIMAL \<Longrightarrow> selected a"
    and ex0: "\<exists>a \<in> set (algorithms s0). algoFunc a = OPTIMAL" by blast+
  let ?s1 = "s0\<lparr>counter := 0, maxPageCalls := min (maxPageCalls s0) (int (length (pageRefs s0)))\<rparr>"
  let ?ps = "map pageNum (take (nat maxCalls) refs)"
  let ?R = "initial_resident (max 1 nframes) OPTIMAL"
  define K where "K s \<longleftrightarrow> pageRefs s = refs \<and>
      (\<exists>a \<in> set (algorithms s). algoFunc a = OPTIMAL) \<and>
      (\<forall>a \<in> set (algorithms s). algoFunc a = OPTIMAL \<longrightarrow>
         selected a \<and> nodup (resident a) \<and>
         (\<forall>n. run ?R ?ps n \<longrightarrow>
            (\<exists>m. run (resident a) (remaining s) m \<and> misses (data a) + int m \<le> int n)))"
    for s :: Sim
  have wf1: "wf_sim ?s1" using st(3) by (simp add: wf_sim_def)
  have r1: "remaining ?s1 = ?ps"
    using st(4,5) by (simp add: remaining_def take_min_length)
  have K1: "K ?s1"
    unfolding K_def
  proof (intro conjI ballI impI)
    show "pageRefs ?s1 = refs" using st(4) by simp
    show "\<exists>a \<in> set (algorithms ?s1). algoFunc a = OPTIMAL" using ex0 by simp
  next
    fix a assume "a \<in> set (algorithms ?s1)" and o: "algoFunc a = OPTIMAL"
    then have a: "a \<in> set (algorithms s0)" by simp
    from so [OF a o] show "selected a" .
    from list_all2_in_right [OF st(6) a] obtain a0 where
      a0: "a0 \<in> set (algorithms (setConfiguration nframes maxCalls False False (newSimulator e)))"
        "flags_only a0 a" by blast
    from a0(1) obtain now np where np: "a0 = mkAlgorithm (max 1 nframes) now np"
      by (auto simp: setConfiguration_def initializeAlgorithms_def Let_def)
    from flags_only_data [OF a0(2)] flags_only_resident [OF a0(2)] o
    have f: "misses (data a) = 0" "resident a = ?R"
      unfolding np by (simp_all add: mkAlgorithm_fresh resident_mkAlgorithm)
    from flags_only_resident [OF a0(2)] show "nodup (resident a)"
      unfolding np by (simp add: resident_fresh)
    show "\<forall>n. run ?R ?ps n \<longrightarrow>
            (\<exists>m. run (resident a) (remaining ?s1) m \<and> misses (data a) + int m \<le> int n)"
      unfolding r1 f by auto
  qed
  have "\<exists>s'. run_loop ?s1 = Some s' \<and> wf_sim s' \<and> K s' \<and> 0 \<le> counter s' \<and>
           \<not> (counter s' < maxPageCalls s' \<and> counter s' < int (length (pageRefs s'))) \<and>
           pageRefs s' = pageRefs ?s1 \<and> maxPageCalls s' = maxPageCalls ?s1 \<and>
           numFrames s' = numFrames ?s1"
  proof (rule run_loop_invariant [where I = K and s = ?s1, OF wf1 _ K1])
    show "0 \<le> counter ?s1" by simp
  next
    fix s :: Sim and algs' and e' :: Env
    let ?p = "pageNum (pageRefs s ! nat (counter s))"
    let ?s = "s\<lparr>lastPageRef := ?p\<rparr>"
    let ?s2 = "s\<lparr>lastPageRef := ?p, env := e', algorithms := algs', counter := counter s + 1\<rparr>"
    assume K: "K s" and wf: "wf_sim s"
      and c: "0 \<le> counter s" "counter s < maxPageCalls s" "counter s < int (length (pageRefs s))"
      and as: "list_all2 (astep ?s (clockReads (env s)) (clockReads e')) (algorithms s) algs'"
    from K have pr: "pageRefs s = refs" by (simp add: K_def)
    have rem: "remaining s = ?p # remaining ?s2"
      using remaining_step [OF c] by (simp add: remaining_def)
    have "remaining ?s2 = remaining (s\<lparr>counter := counter s + 1\<rparr>)" by (simp add: remaining_def)
    also have "\<dots> = take (nat (maxPageCalls s) - nat (counter s + 1))
          (map pageNum (drop (nat (counter s + 1)) (pageRefs s)))" by (rule remaining_take)
    also have "nat (counter s + 1) = nat (counter s) + 1" using c(1) by simp
    finally have rest: "remaining ?s2 = take (nat (maxPageCalls s) - (nat (counter ?s) + 1))
          (map pageNum (drop (nat (counter ?s) + 1) (pageRefs ?s)))" by simp
    have nm2: "-1 \<notin> set (remaining ?s2)"
      using remaining_subset [of ?s2] nm pr by auto
    show "K ?s2"
      unfolding K_def
    proof (intro conjI ballI impI)
      show "pageRefs ?s2 = refs" using pr by simp
    next
      from K obtain a where a: "a \<in> set (algorithms s)" "algoFunc a = OPTIMAL"
        by (auto simp: K_def)
      from list_all2_in_left [OF as a(1)] obtain a' where
        "a' \<in> set algs'" "astep ?s (clockReads (env s)) (clockReads e') a a'" by blast
      with astep_counters [of ?s _ _ a a'] a(2)
      show "\<exists>a \<in> set (algorithms ?s2). algoFunc a = OPTIMAL" by auto
    next
      fix a' assume "a' \<in> set (algorithms ?s2)" and o': "algoFunc a' = OPTIMAL"
      then have "a' \<in> set algs'" by simp
      from list_all2_in_right [OF as this] obtain a where
        a: "a \<in> set (algorithms s)" "astep ?s (clockReads (env s)) (clockReads e') a a'" by blast
      from astep_counters [OF a(2)] o' have o: "algoFunc a = OPTIMAL" by simp
      from K a(1) o have Ka: "selected a" "nodup (resident a)"
        "\<And>n. run ?R ?ps n \<Longrightarrow>
            \<exists>m. run (resident a) (remaining s) m \<and> misses (data a) + int m \<le> int n"
        by (simp_all add: K_def)
      from wf a(1) have w: "wf_alg (numFrames ?s) a" "0 < numFrames ?s"
        by (simp_all add: wf_sim_def)
      from astep_mstep [OF w a(2) Ka(1)] obtain fault where
        f: "mstep ?p (resident a) fault (resident a')" "selected a'"
        by auto
      from f(2) show "selected a'" .
      from mstep_nodup [OF f(1) Ka(2)] show "nodup (resident a')" .
      show "\<forall>n. run ?R ?ps n \<longrightarrow>
            (\<exists>m. run (resident a') (remaining ?s2) m \<and> misses (data a') + int m \<le> int n)"
      proof (intro allI impI)
        fix n assume "run ?R ?ps n"
        from Ka(3) [OF this] obtain m where
          m: "run (resident a) (remaining s) m" "misses (data a) + int m \<le> int n" by blast
        from m(1) have r: "run (resident a) (lastPageRef ?s # remaining ?s2) m"
          unfolding rem by simp
        have c': "0 \<le> counter ?s" using c(1) by simp
        have l': "int (length (pageRefs ?s)) \<le> INT_MAX" using len pr by simp
        from optimal_astep [OF w a(2) Ka(1) o c' l' Ka(2) rest nm2 r] obtain m' where
          "run (resident a') (remaining ?s2) m'"
          "misses (data a') + int m' \<le> misses (data a) + int m" by blast
        with m(2) show "\<exists>m. run (resident a') (remaining ?s2) m \<and> misses (data a') + int m \<le> int n"
          by (intro exI [of _ m']) simp
      qed
    qed
  qed
  then obtain s' where r: "run_loop ?s1 = Some s'" "K s'" "0 \<le> counter s'"
    "\<not> (counter s' < maxPageCalls s' \<and> counter s' < int (length (pageRefs s')))" by blast
  from remaining_done [OF r(4,3)] have e: "remaining s' = []" .
  have "\<forall>a \<in> set (algorithms s'). algoFunc a = OPTIMAL \<longrightarrow>
          (\<forall>n. run ?R ?ps n \<longrightarrow> misses (data a) \<le> int n)"
  proof (intro ballI impI allI)
    fix a n assume "a \<in> set (algorithms s')" "algoFunc a = OPTIMAL" "run ?R ?ps n"
    with r(2) obtain m where "misses (data a) + int m \<le> int n"
      unfolding K_def by blast
    then show "misses (data a) \<le> int n" by simp
  qed
  moreover from r(2) have "\<exists>a \<in> set (algorithms s'). algoFunc a = OPTIMAL \<and> selected a"
    unfolding K_def by blast
  ultimately show ?thesis using r(1) st(2) by (simp add: runSimulation_def)
qed


section \<open>C1: OPTIMAL has the fewest misses\<close>

text \<open>
  Claim C1 as stated fails on the code: LFRU keeps its pages in its own two partitions
  of \<open>PRIVILEGED_PARTITION_SIZE + UNPRIVILEGED_PARTITION_SIZE = 10\<close> frames whatever
  \<open>numFrames\<close> is, so with fewer than ten frames it can beat OPTIMAL. With one frame and
  the trace \<open>0, 1, 0, 1\<close>, all policies selected, OPTIMAL misses four times and LFRU
  twice.
\<close>

theorem optimal_beaten_by_lfru:
  "\<exists>s. simulate example_env 1 4 (example_refs [0, 1, 0, 1]) CHR ''a'' = Some s \<and>
       algoFunc (algorithms s ! 0) = OPTIMAL \<and> selected (algorithms s ! 0) \<and>
       algoFunc (algorithms s ! 11) = LFRU \<and> selected (algorithms s ! 11) \<and>
       misses (data (algorithms s ! 0)) = 4 \<and> misses (data (algorithms s ! 11)) = 2"
proof -
  have "case simulate example_env 1 4 (example_refs [0, 1, 0, 1]) CHR ''a'' of
          None \<Rightarrow> False
        | Some s \<Rightarrow>
            map (\<lambda>a. (algoFunc a, selected a, misses (data a))) [algorithms s ! 0, algorithms s ! 11]
              = [(OPTIMAL, True, 4), (LFRU, True, 2)]"
    by code_simp
  then show ?thesis by (auto split: option.splits)
qed

text \<open>
  Claim C1, amended. For every trace without a reference to the empty marker \<open>-1\<close> (of
  at most \<open>INT_MAX\<close> references, the range of the \<open>int\<close> positions \<open>optimal\<close> compares),
  every frame count \<open>F\<close> and every bound \<open>maxCalls\<close> on the processed references: a run
  that selects OPTIMAL (code \<open>O\<close> or \<open>a\<close>) and a run with any valid code, in any two
  environments, both return, OPTIMAL is selected in the first, and its miss count is at
  most the miss count of every selected policy of the second; for LFRU this needs
  \<open>F\<close> to be at least the ten frames of its partitions.
\<close>

theorem optimal_misses_least:
  assumes "0 \<le> clockHand e1" "0 \<le> clockHand e2"
    and "c1 = CHR ''O'' \<or> c1 = CHR ''a''" and "c2 \<in> set ''ORFLCNAMnmlfa''"
    and "-1 \<notin> set (map pageNum refs)" and "int (length refs) \<le> INT_MAX"
  shows "\<exists>s1 s2. simulate e1 F maxCalls refs c1 = Some s1 \<and>
           simulate e2 F maxCalls refs c2 = Some s2 \<and>
           (\<exists>b \<in> set (algorithms s1). algoFunc b = OPTIMAL \<and> selected b) \<and>
           (\<forall>b \<in> set (algorithms s1). \<forall>a \<in> set (algorithms s2).
              algoFunc b = OPTIMAL \<and> selected a \<and>
              (algoFunc a = LFRU \<longrightarrow>
                 PRIVILEGED_PARTITION_SIZE + UNPRIVILEGED_PARTITION_SIZE \<le> F) \<longrightarrow>
              misses (data b) \<le> misses (data a))"
proof -
  let ?ps = "map pageNum (take (nat maxCalls) refs)"
  let ?R = "initial_resident (max 1 F) OPTIMAL"
  from optimal_run [OF assms(1,3,5,6), of F maxCalls] obtain s1 where
    s1: "simulate e1 F maxCalls refs c1 = Some s1"
      "\<exists>b \<in> set (algorithms s1). algoFunc b = OPTIMAL \<and> selected b"
      "\<And>b n. b \<in> set (algorithms s1) \<Longrightarrow> algoFunc b = OPTIMAL \<Longrightarrow> run ?R ?ps n \<Longrightarrow>
          misses (data b) \<le> int n"
    by blast
  from policy_run [OF assms(2,4), of F maxCalls refs] obtain s2 where
    s2: "simulate e2 F maxCalls refs c2 = Some s2"
      "\<And>a. a \<in> set (algorithms s2) \<Longrightarrow> selected a \<Longrightarrow> 0 \<le> misses (data a) \<and>
          run (initial_resident (max 1 F) (algoFunc a)) ?ps (nat (misses (data a)))"
    by blast
  have "misses (data b) \<le> misses (data a)"
    if b: "b \<in> set (algorithms s1)" "algoFunc b = OPTIMAL"
      and a: "a \<in> set (algorithms s2)" "selected a"
      and lf: "algoFunc a = LFRU \<longrightarrow> PRIVILEGED_PARTITION_SIZE + UNPRIVILEGED_PARTITION_SIZE \<le> F"
    for b a
  proof -
    from s2(2) [OF a] have ma: "0 \<le> misses (data a)"
      "run (initial_resident (max 1 F) (algoFunc a)) ?ps (nat (misses (data a)))" by simp_all
    have "initial_resident (max 1 F) (algoFunc a) \<subseteq># ?R"
      unfolding initial_resident_def using lf
      by (intro replicate_mset_mono)
         (auto simp: PRIVILEGED_PARTITION_SIZE_def UNPRIVILEGED_PARTITION_SIZE_def)
    from run_mono [OF ma(2) this] obtain m where m: "m \<le> nat (misses (data a))" "run ?R ?ps m"
      by blast
    from s1(3) [OF b m(2)] m(1) ma(1) show ?thesis by linarith
  qed
  with s1(1,2) s2(1) show ?thesis by blast
qed

theorem optimal_misses_least_witness:
  "0 \<le> clockHand example_env \<and> CHR ''a'' \<in> set ''ORFLCNAMnmlfa'' \<and>
   -1 \<notin> set (map pageNum (example_refs [0, 1, 0, 1])) \<and>
   int (length (example_refs [0, 1, 0, 1])) \<le> INT_MAX \<and>
   (\<exists>s1 s2. simulate example_env 10 4 (example_refs [0, 1, 0, 1]) CHR ''O'' = Some s1 \<and>
      simulate example_env 10 4 (example_refs [0, 1, 0, 1]) CHR ''a'' = Some s2 \<and>
      (\<exists>b \<in> set (algorithms s1). algoFunc b = OPTIMAL \<and> selected b) \<and>
      (\<forall>b \<in> set (algorithms s1). \<forall>a \<in> set (algorithms s2).
         algoFunc b = OPTIMAL \<and> selected a \<and>
         (algoFunc a = LFRU \<longrightarrow>
            PRIVILEGED_PARTITION_SIZE + UNPRIVILEGED_PARTITION_SIZE \<le> 10) \<longrightarrow>
         misses (data b) \<le> misses (data a)))"
proof -
  have h: "0 \<le> clockHand example_env" "CHR ''O'' = CHR ''O'' \<or> CHR ''O'' = CHR ''a''"
    "CHR ''a'' \<in> set ''ORFLCNAMnmlfa''"
    "-1 \<notin> set (map pageNum (example_refs [0, 1, 0, 1]))"
    "int (length (example_refs [0, 1, 0, 1])) \<le> INT_MAX"
    by (simp_all add: example_env_def example_refs_def INT_MAX_def)
  from optimal_misses_least [OF h(1) h(1) h(2) h(3) h(4) h(5), of 10 4] h
  show ?thesis by blast
qed

section \<open>C8: CLOCK and its static hand\<close>

text \<open>
  \<open>clock\<close> never reads the \<open>time\<close> field of a frame; frames are compared here up to that
  field, which holds the wall-clock reading of the construction.
\<close>

definition untimed_frame :: "Frame \<Rightarrow> Frame" where
  "untimed_frame f = f\<lparr>time := 0\<rparr>"

definition untimed :: "AlgorithmData \<Rightarrow> AlgorithmData" where
  "untimed d = d\<lparr>pageTable := map untimed_frame (pageTable d),
                 victimList := map untimed_frame (victimList d)\<rparr>"

lemma untimed_fields [simp]:
  "pageTable (untimed d) = map untimed_frame (pageTable d)"
  "victimList (untimed d) = map untimed_frame (victimList d)"
  "hits (untimed d) = hits d" "misses (untimed d) = misses d"
  "page (untimed_frame f) = page f" "extra (untimed_frame f) = extra f"
  by (simp_all add: untimed_def untimed_frame_def)

lemma untimed_set_frame:
  assumes "\<And>f. untimed_frame (g f) = g (untimed_frame f)"
  shows "set_frame i g (untimed d) = untimed (set_frame i g d)"
proof (cases "i < length (pageTable d)")
  case True
  then show ?thesis by (simp add: set_frame_def untimed_def map_update assms)
next
  case False
  then have "(pageTable d)[i := x] = pageTable d"
    "(map untimed_frame (pageTable d))[i := y] = map untimed_frame (pageTable d)" for x y
    by (simp_all add: list_update_beyond)
  then show ?thesis by (simp add: set_frame_def untimed_def)
qed

lemma untimed_frame_upd:
  "untimed_frame (f\<lparr>page := p\<rparr>) = (untimed_frame f)\<lparr>page := p\<rparr>"
  "untimed_frame (f\<lparr>extra := x\<rparr>) = (untimed_frame f)\<lparr>extra := x\<rparr>"
  by (simp_all add: untimed_frame_def)

lemma untimed_set_frame_upd:
  "set_frame i (\<lambda>f. f\<lparr>page := p, extra := x\<rparr>) (untimed d) =
     untimed (set_frame i (\<lambda>f. f\<lparr>page := p, extra := x\<rparr>) d)"
  "set_frame i (\<lambda>f. f\<lparr>extra := x\<rparr>) (untimed d) = untimed (set_frame i (\<lambda>f. f\<lparr>extra := x\<rparr>) d)"
  using untimed_set_frame [of "\<lambda>f. f\<lparr>page := p, extra := x\<rparr>" i d]
    untimed_set_frame [of "\<lambda>f. f\<lparr>extra := x\<rparr>" i d]
  by (simp_all add: untimed_frame_upd)

lemma untimed_push_victim:
  "i < length (pageTable d) \<Longrightarrow> push_victim i (untimed d) = untimed (push_victim i d)"
  by (simp add: push_victim_def untimed_def)

lemma untimed_find_if:
  "find_if (\<lambda>f. page f = p) (pageTable (untimed d)) = find_if (\<lambda>f. page f = p) (pageTable d)"
  by (simp add: find_if_map)

lemma clock_search_untimed:
  "clock_search nF ref st (untimed d) h it =
     map_option (\<lambda>(r, d', h', it'). (r, untimed d', h', it')) (clock_search nF ref st d h it)"
proof (induction nF ref st d h it rule: clock_search.induct)
  case (1 nF ref st d h it)
  show ?case
  proof (cases "h < 0 \<or> nat h \<ge> length (pageTable d) \<or> nF \<le> 0")
    case True
    then have "clock_search nF ref st d h it = None" "clock_search nF ref st (untimed d) h it = None"
      by (subst clock_search.simps, simp)+
    then show ?thesis by simp
  next
    case ok: False
    then have hl: "nat h < length (pageTable d)" by simp
    show ?thesis
    proof (cases "extra (pageTable d ! nat h) = 0")
      case True
      have "clock_search nF ref st d h it =
              Some (True, set_frame (nat h) (\<lambda>f. f\<lparr>page := ref, extra := 1\<rparr>) (push_victim (nat h) d),
                    (h + 1) mod nF, it + 1)"
        using ok True by (subst clock_search.simps) simp
      moreover have "clock_search nF ref st (untimed d) h it =
              Some (True, set_frame (nat h) (\<lambda>f. f\<lparr>page := ref, extra := 1\<rparr>)
                            (push_victim (nat h) (untimed d)),
                    (h + 1) mod nF, it + 1)"
        using ok True hl by (subst clock_search.simps) simp
      ultimately show ?thesis
        by (simp add: untimed_push_victim [OF hl] untimed_set_frame_upd)
    next
      case False
      let ?d' = "set_frame (nat h) (\<lambda>f. f\<lparr>extra := 0\<rparr>) d"
      let ?h' = "(h + 1) mod nF"
      have u: "set_frame (nat h) (\<lambda>f. f\<lparr>extra := 0\<rparr>) (untimed d) = untimed ?d'"
        by (rule untimed_set_frame_upd)
      show ?thesis
      proof (cases "?h' \<noteq> st")
        case True
        have "clock_search nF ref st d h it = clock_search nF ref st ?d' ?h' (it + 1)"
          using ok False True by (subst clock_search.simps) (simp add: Let_def)
        moreover have "clock_search nF ref st (untimed d) h it =
                         clock_search nF ref st (untimed ?d') ?h' (it + 1)"
          using ok False True hl by (subst clock_search.simps) (simp add: Let_def u)
        moreover from "1.IH" [OF ok False refl refl True]
        have "clock_search nF ref st (untimed ?d') ?h' (it + 1) =
                map_option (\<lambda>(r, d', h', it'). (r, untimed d', h', it'))
                  (clock_search nF ref st ?d' ?h' (it + 1))" .
        ultimately show ?thesis by (simp only:)
      next
        case stop: False
        have "clock_search nF ref st d h it = Some (False, ?d', ?h', it + 1)"
          using ok False stop by (subst clock_search.simps) (simp add: Let_def)
        moreover have "clock_search nF ref st (untimed d) h it = Some (False, untimed ?d', ?h', it + 1)"
          using ok False stop hl by (subst clock_search.simps) (simp add: Let_def u)
        ultimately show ?thesis by simp
      qed
    qed
  qed
qed

lemma clock_untimed:
  "clock nF ref h (untimed d) = map_option (\<lambda>(f, d', h'). (f, untimed d', h')) (clock nF ref h d)"
proof (cases "find_if (\<lambda>f. page f = ref) (pageTable d)")
  case (Some i)
  then show ?thesis
    by (simp add: clock_def Let_def untimed_find_if untimed_set_frame_upd
             del: untimed_fields)
next
  case nohit: None
  show ?thesis
  proof (cases "find_if (\<lambda>f. page f = -1) (pageTable d)")
    case (Some i)
    with nohit show ?thesis
      by (simp add: clock_def Let_def untimed_find_if untimed_set_frame_upd
               del: untimed_fields)
  next
    case None
    let ?h = "if nF \<le> h then 0 else h"
    show ?thesis
    proof (cases "clock_search nF ref ?h d ?h 0")
      case n: None
      with nohit None clock_search_untimed [of nF ref ?h d ?h 0] show ?thesis
        by (simp add: clock_def Let_def untimed_find_if del: untimed_fields)
    next
      case (Some r)
      obtain ret d' h' it' where r: "r = (ret, d', h', it')" by (cases r)
      from Some clock_search_untimed [of nF ref ?h d ?h 0]
      have u: "clock_search nF ref ?h (untimed d) ?h 0 = Some (ret, untimed d', h', it')"
        by (simp add: r)
      show ?thesis
      proof (cases "\<not> ret \<and> \<not> (h' < 0 \<or> nat h' \<ge> length (pageTable d'))")
        case True
        then have hl: "nat h' < length (pageTable d')" by simp
        from nohit None Some True u show ?thesis
          by (simp add: clock_def Let_def untimed_find_if r untimed_push_victim [OF hl, symmetric]
                untimed_set_frame_upd [symmetric] del: untimed_fields)
             simp
      next
        case False
        have "length (pageTable (untimed d')) = length (pageTable d')" by simp
        with False nohit None Some u show ?thesis
          by (auto simp add: clock_def Let_def untimed_find_if r simp del: untimed_fields)
      qed
    qed
  qed
qed


lemma untimed_eq_iff:
  "untimed d1 = untimed d2 \<longleftrightarrow>
     hits d1 = hits d2 \<and> misses d1 = misses d2 \<and>
     map untimed_frame (pageTable d1) = map untimed_frame (pageTable d2) \<and>
     map untimed_frame (victimList d1) = map untimed_frame (victimList d2) \<and>
     lfruData d1 = lfruData d2"
  by (cases d1, cases d2) (auto simp: untimed_def)

text \<open>Two algorithm records agree as far as CLOCK is concerned.\<close>

definition clock_alg_rel :: "Algorithm \<Rightarrow> Algorithm \<Rightarrow> bool" where
  "clock_alg_rel a1 a2 \<longleftrightarrow>
     algoFunc a1 = algoFunc a2 \<and>
     (algoFunc a1 = CLOCK \<longrightarrow> selected a1 = selected a2 \<and> untimed (data a1) = untimed (data a2))"

definition clock_rel :: "Sim \<Rightarrow> Sim \<Rightarrow> bool" where
  "clock_rel s1 s2 \<longleftrightarrow>
     numFrames s1 = numFrames s2 \<and> counter s1 = counter s2 \<and>
     maxPageCalls s1 = maxPageCalls s2 \<and> pageRefs s1 = pageRefs s2 \<and>
     clockHand (env s1) = clockHand (env s2) \<and>
     list_all2 clock_alg_rel (algorithms s1) (algorithms s2)"

lemma invoke_hand:
  "invoke pol s d = Some (f, d', e') \<Longrightarrow> pol \<noteq> CLOCK \<Longrightarrow> clockHand e' = clockHand (env s)"
  by (cases pol) (auto simp: invoke_def Let_def split: prod.splits)

lemma invoke_clock_rel:
  assumes "invoke CLOCK s1 d1 = Some (f1, d1', e1')" "invoke CLOCK s2 d2 = Some (f2, d2', e2')"
    and "untimed d1 = untimed d2" "numFrames s1 = numFrames s2" "lastPageRef s1 = lastPageRef s2"
    and "clockHand (env s1) = clockHand (env s2)"
  shows "f1 = f2 \<and> untimed d1' = untimed d2' \<and> clockHand e1' = clockHand e2'"
proof -
  let ?nF = "numFrames s1" and ?r = "lastPageRef s1" and ?h = "clockHand (env s1)"
  from assms(1) obtain h1 where
    c1: "clock ?nF ?r ?h d1 = Some (f1, d1', h1)" "clockHand e1' = h1"
    by (auto simp: invoke_def Let_def)
  from assms(2,4,5,6) obtain h2 where
    c2: "clock ?nF ?r ?h d2 = Some (f2, d2', h2)" "clockHand e2' = h2"
    by (auto simp: invoke_def Let_def)
  from c1(1) have "clock ?nF ?r ?h (untimed d1) = Some (f1, untimed d1', h1)"
    by (simp add: clock_untimed)
  moreover from c2(1) have "clock ?nF ?r ?h (untimed d2) = Some (f2, untimed d2', h2)"
    by (simp add: clock_untimed)
  ultimately show ?thesis using assms(3) c1(2) c2(2) by simp
qed

text \<open>One iteration of the loop of \<open>processPageReference\<close>, taken apart.\<close>

lemma run_algorithms_ConsD:
  assumes "run_algorithms (a # rest) s = Some (algs', s')"
  shows "\<exists>a' rest' sm. algs' = a' # rest' \<and> run_algorithms rest sm = Some (rest', s') \<and>
           numFrames sm = numFrames s \<and> lastPageRef sm = lastPageRef s \<and>
           algoFunc a' = algoFunc a \<and> selected a' = selected a \<and>
           (if selected a
            then \<exists>f d' e'. invoke (algoFunc a) s (data a) = Some (f, d', e') \<and> sm = s\<lparr>env := e'\<rparr> \<and>
                   data a' = (if f then d'\<lparr>misses := misses d' + 1\<rparr> else d'\<lparr>hits := hits d' + 1\<rparr>)
            else a' = a \<and> sm = s)"
proof (cases "selected a")
  case False
  with assms show ?thesis by auto
next
  case True
  with assms obtain f d' e' where
    i: "invoke (algoFunc a) s (data a) = Some (f, d', e')"
    by (auto split: option.splits)
  let ?d = "if f then d'\<lparr>misses := misses d' + 1\<rparr> else d'\<lparr>hits := hits d' + 1\<rparr>"
  from assms True i obtain rest' where
    "run_algorithms rest (s\<lparr>env := e'\<rparr>) = Some (rest', s')" "algs' = a\<lparr>data := ?d\<rparr> # rest'"
    by (auto simp: Let_def)
  with True i show ?thesis
    by (intro exI [of _ "a\<lparr>data := ?d\<rparr>"] exI [of _ rest'] exI [of _ "s\<lparr>env := e'\<rparr>"]) simp
qed

lemma run_algorithms_clock_rel:
  assumes "list_all2 clock_alg_rel algs1 algs2"
    and "run_algorithms algs1 s1 = Some (algs1', s1')"
    and "run_algorithms algs2 s2 = Some (algs2', s2')"
    and "numFrames s1 = numFrames s2" "lastPageRef s1 = lastPageRef s2"
    and "clockHand (env s1) = clockHand (env s2)"
  shows "list_all2 clock_alg_rel algs1' algs2' \<and> clockHand (env s1') = clockHand (env s2')"
  using assms
proof (induction arbitrary: s1 s2 algs1' algs2' s1' s2' rule: list_all2_induct)
  case Nil
  then show ?case by simp
next
  case (Cons a1 rest1 a2 rest2)
  from run_algorithms_ConsD [OF Cons.prems(1)] obtain a1' rest1' sm1 where
    d1: "algs1' = a1' # rest1'" "run_algorithms rest1 sm1 = Some (rest1', s1')"
      "numFrames sm1 = numFrames s1" "lastPageRef sm1 = lastPageRef s1"
      "algoFunc a1' = algoFunc a1" "selected a1' = selected a1"
      "if selected a1
       then \<exists>f d' e'. invoke (algoFunc a1) s1 (data a1) = Some (f, d', e') \<and> sm1 = s1\<lparr>env := e'\<rparr> \<and>
              data a1' = (if f then d'\<lparr>misses := misses d' + 1\<rparr> else d'\<lparr>hits := hits d' + 1\<rparr>)
       else a1' = a1 \<and> sm1 = s1"
    by blast
  from run_algorithms_ConsD [OF Cons.prems(2)] obtain a2' rest2' sm2 where
    d2: "algs2' = a2' # rest2'" "run_algorithms rest2 sm2 = Some (rest2', s2')"
      "numFrames sm2 = numFrames s2" "lastPageRef sm2 = lastPageRef s2"
      "algoFunc a2' = algoFunc a2" "selected a2' = selected a2"
      "if selected a2
       then \<exists>f d' e'. invoke (algoFunc a2) s2 (data a2) = Some (f, d', e') \<and> sm2 = s2\<lparr>env := e'\<rparr> \<and>
              data a2' = (if f then d'\<lparr>misses := misses d' + 1\<rparr> else d'\<lparr>hits := hits d' + 1\<rparr>)
       else a2' = a2 \<and> sm2 = s2"
    by blast
  from Cons.hyps(1) have af: "algoFunc a1 = algoFunc a2" by (simp add: clock_alg_rel_def)
  have head: "clock_alg_rel a1' a2' \<and> clockHand (env sm1) = clockHand (env sm2)"
  proof (cases "algoFunc a1 = CLOCK")
    case False
    have "clockHand (env sm1) = clockHand (env s1)"
      using d1(7) False by (auto split: if_splits dest: invoke_hand)
    moreover have "clockHand (env sm2) = clockHand (env s2)"
      using d2(7) False af by (auto split: if_splits dest: invoke_hand)
    ultimately show ?thesis
      using False af d1(5) d2(5) Cons.prems(5) by (simp add: clock_alg_rel_def)
  next
    case True
    with Cons.hyps(1) have sel: "selected a1 = selected a2" and u: "untimed (data a1) = untimed (data a2)"
      by (simp_all add: clock_alg_rel_def)
    show ?thesis
    proof (cases "selected a1")
      case False
      with sel d1(7) d2(7) Cons.hyps(1) Cons.prems(5) show ?thesis by simp
    next
      case sel1: True
      with d1(7) True obtain f1 d1' e1' where
        i1: "invoke CLOCK s1 (data a1) = Some (f1, d1', e1')" "sm1 = s1\<lparr>env := e1'\<rparr>"
          "data a1' = (if f1 then d1'\<lparr>misses := misses d1' + 1\<rparr> else d1'\<lparr>hits := hits d1' + 1\<rparr>)"
        by auto
      from sel1 sel d2(7) True af obtain f2 d2' e2' where
        i2: "invoke CLOCK s2 (data a2) = Some (f2, d2', e2')" "sm2 = s2\<lparr>env := e2'\<rparr>"
          "data a2' = (if f2 then d2'\<lparr>misses := misses d2' + 1\<rparr> else d2'\<lparr>hits := hits d2' + 1\<rparr>)"
        by auto
      from invoke_clock_rel [OF i1(1) i2(1) u Cons.prems(3,4,5)]
      have r: "f1 = f2" "untimed d1' = untimed d2'" "clockHand e1' = clockHand e2'" by simp_all
      from r(1,2) have "untimed (data a1') = untimed (data a2')"
        unfolding i1(3) i2(3) untimed_eq_iff by simp
      with r(3) i1(2) i2(2) d1(5,6) d2(5,6) af sel show ?thesis
        by (simp add: clock_alg_rel_def)
    qed
  qed
  from Cons.IH [OF d1(2) d2(2)] head d1(3,4) d2(3,4) Cons.prems(3,4)
  have "list_all2 clock_alg_rel rest1' rest2' \<and> clockHand (env s1') = clockHand (env s2')"
    by simp
  with head show ?case unfolding d1(1) d2(1) by simp
qed

lemma processPageReference_clock_rel:
  assumes "processPageReference p s1 = Some t1" "processPageReference p s2 = Some t2"
    and "clock_rel s1 s2"
  shows "clock_rel t1 t2"
proof -
  from assms(1) obtain algs1' s1' where
    r1: "run_algorithms (algorithms s1) (s1\<lparr>lastPageRef := p\<rparr>) = Some (algs1', s1')"
      "t1 = s1'\<lparr>algorithms := algs1'\<rparr>"
    by (auto simp: processPageReference_def Let_def)
  from assms(2) obtain algs2' s2' where
    r2: "run_algorithms (algorithms s2) (s2\<lparr>lastPageRef := p\<rparr>) = Some (algs2', s2')"
      "t2 = s2'\<lparr>algorithms := algs2'\<rparr>"
    by (auto simp: processPageReference_def Let_def)
  from assms(3) have "list_all2 clock_alg_rel (algorithms s1) (algorithms s2)"
    "numFrames (s1\<lparr>lastPageRef := p\<rparr>) = numFrames (s2\<lparr>lastPageRef := p\<rparr>)"
    "lastPageRef (s1\<lparr>lastPageRef := p\<rparr>) = lastPageRef (s2\<lparr>lastPageRef := p\<rparr>)"
    "clockHand (env (s1\<lparr>lastPageRef := p\<rparr>)) = clockHand (env (s2\<lparr>lastPageRef := p\<rparr>))"
    by (simp_all add: clock_rel_def)
  from run_algorithms_clock_rel [OF this(1) r1(1) r2(1) this(2,3,4)]
    run_algorithms_frame [OF r1(1)] run_algorithms_frame [OF r2(1)] assms(3)
  show ?thesis unfolding r1(2) r2(2) by (simp add: clock_rel_def)
qed

lemma run_loop_clock_rel:
  assumes "wf_sim s1" "wf_sim s2" "0 \<le> counter s1" "clock_rel s1 s2"
  shows "\<exists>t1 t2. run_loop s1 = Some t1 \<and> run_loop s2 = Some t2 \<and> clock_rel t1 t2"
  using assms
proof (induction s1 arbitrary: s2 rule: run_loop.induct)
  case (1 s1)
  from "1.prems"(4) have eq: "counter s2 = counter s1" "maxPageCalls s2 = maxPageCalls s1"
    "pageRefs s2 = pageRefs s1" by (simp_all add: clock_rel_def)
  show ?case
  proof (cases "counter s1 < maxPageCalls s1 \<and> counter s1 < int (length (pageRefs s1))")
    case False
    then have "run_loop s1 = Some s1" by (subst run_loop.simps) auto
    moreover from False eq have "run_loop s2 = Some s2" by (subst run_loop.simps) auto
    ultimately show ?thesis using "1.prems"(4) by simp
  next
    case True
    let ?p = "pageNum (pageRefs s1 ! nat (counter s1))"
    from processPageReference_astep [OF "1.prems"(1), of ?p] obtain t1 where
      p1: "processPageReference ?p s1 = Some t1" "wf_sim t1" by blast
    from processPageReference_astep [OF "1.prems"(2), of ?p] obtain t2 where
      p2: "processPageReference ?p s2 = Some t2" "wf_sim t2" by blast
    from processPageReference_clock_rel [OF p1(1) p2(1) "1.prems"(4)] have r: "clock_rel t1 t2" .
    from processPageReference_frame [OF p1(1)] have f1: "counter t1 = counter s1" by simp
    let ?t1 = "t1\<lparr>counter := counter t1 + 1\<rparr>" and ?t2 = "t2\<lparr>counter := counter t2 + 1\<rparr>"
    have wf: "wf_sim ?t1" "wf_sim ?t2" using p1(2) p2(2) by (simp_all add: wf_sim_def)
    have c: "0 \<le> counter ?t1" using f1 "1.prems"(3) by simp
    have r': "clock_rel ?t1 ?t2" using r by (simp add: clock_rel_def)
    from True "1.prems"(3) have nn: "\<not> counter s1 < 0" by simp
    from "1.IH" [OF True nn p1(1) wf c r'] obtain u1 u2 where
      u: "run_loop ?t1 = Some u1" "run_loop ?t2 = Some u2" "clock_rel u1 u2" by blast
    have "run_loop s1 = Some u1" using True nn p1(1) u(1) by (subst run_loop.simps) auto
    moreover have "run_loop s2 = Some u2"
      using True nn p2(1) u(2) eq by (subst run_loop.simps) auto
    ultimately show ?thesis using u(3) by simp
  qed
qed

lemma astep_list_flags:
  "list_all2 (astep s lo hi) algs algs' \<Longrightarrow>
   map algoFunc algs' = map algoFunc algs \<and> map selected algs' = map selected algs"
  by (induction rule: list_all2_induct) (auto dest: astep_counters)

lemma run_loop_flags:
  assumes "wf_sim s" "0 \<le> counter s"
  shows "\<exists>s'. run_loop s = Some s' \<and> map algoFunc (algorithms s') = map algoFunc (algorithms s) \<and>
           map selected (algorithms s') = map selected (algorithms s)"
proof -
  define I where "I t \<longleftrightarrow> map algoFunc (algorithms t) = map algoFunc (algorithms s) \<and>
      map selected (algorithms t) = map selected (algorithms s)" for t :: Sim
  have I0: "I s" by (simp add: I_def)
  have "\<exists>s'. run_loop s = Some s' \<and> wf_sim s' \<and> I s' \<and> 0 \<le> counter s' \<and>
           \<not> (counter s' < maxPageCalls s' \<and> counter s' < int (length (pageRefs s'))) \<and>
           pageRefs s' = pageRefs s \<and> maxPageCalls s' = maxPageCalls s \<and>
           numFrames s' = numFrames s"
  proof (rule run_loop_invariant [where I = I and s = s, OF assms I0])
    fix t :: Sim and algs' and e' :: Env
    assume "I t"
      and "list_all2 (astep (t\<lparr>lastPageRef := pageNum (pageRefs t ! nat (counter t))\<rparr>)
             (clockReads (env t)) (clockReads e')) (algorithms t) algs'"
    with astep_list_flags [of _ _ _ "algorithms t" algs']
    show "I (t\<lparr>lastPageRef := pageNum (pageRefs t ! nat (counter t)), env := e',
              algorithms := algs', counter := counter t + 1\<rparr>)"
      by (simp add: I_def)
  qed
  then show ?thesis unfolding I_def by blast
qed

lemma select_clock:
  assumes "c = CHR ''C'' \<or> c = CHR ''a''"
    and "algorithms t = map (mkAlgorithm nF now) policy_table"
    and "selectAlgorithm c t = Inr s"
  shows "length (algorithms s) = 12 \<and> algoFunc (algorithms s ! 4) = CLOCK \<and> selected (algorithms s ! 4)"
  using assms(1)
proof
  assume "c = CHR ''C''"
  with assms(2,3) show ?thesis
    by (auto simp: selectAlgorithm_def Let_def policy_table_def deselect_all_def select_at_def
          mkAlgorithm_def)
next
  assume "c = CHR ''a''"
  with assms(2,3) show ?thesis
    by (auto simp: selectAlgorithm_def Let_def policy_table_def deselect_all_def select_at_def
          mkAlgorithm_def)
qed

lemma untimed_mkAlgorithmData:
  "untimed (mkAlgorithmData nF now1) = untimed (mkAlgorithmData nF now2)"
  by (simp add: untimed_def mkAlgorithmData_def mkFrame_def untimed_frame_def)

lemma clock_alg_rel_fresh:
  "np \<in> set policy_table \<Longrightarrow> clock_alg_rel (mkAlgorithm nF now1 np) (mkAlgorithm nF now2 np)"
  using untimed_mkAlgorithmData [of nF now1 now2]
  by (auto simp: clock_alg_rel_def mkAlgorithm_def policy_table_def Let_def)

lemma clock_alg_rel_flag:
  "clock_alg_rel a1 a2 \<Longrightarrow> clock_alg_rel (a1\<lparr>selected := b\<rparr>) (a2\<lparr>selected := b\<rparr>)"
  by (simp add: clock_alg_rel_def)

lemma select_clock_rel:
  assumes "algorithms t1 = map (mkAlgorithm nF now1) policy_table"
    and "algorithms t2 = map (mkAlgorithm nF now2) policy_table"
    and "selectAlgorithm c t1 = Inr s1" "selectAlgorithm c t2 = Inr s2"
  shows "list_all2 clock_alg_rel (algorithms s1) (algorithms s2)"
proof -
  have base: "list_all2 clock_alg_rel (deselect_all (algorithms t1)) (deselect_all (algorithms t2))"
    unfolding assms(1,2) deselect_all_def
    by (simp add: list_all2_conv_all_nth clock_alg_rel_flag clock_alg_rel_fresh)
  have pick: "list_all2 clock_alg_rel (select_at k (deselect_all (algorithms t1)))
                (select_at k (deselect_all (algorithms t2)))" for k
  proof (cases "k < length (deselect_all (algorithms t1))")
    case True
    with base have "clock_alg_rel (deselect_all (algorithms t1) ! k) (deselect_all (algorithms t2) ! k)"
      by (simp add: list_all2_conv_all_nth)
    then have "clock_alg_rel ((deselect_all (algorithms t1) ! k)\<lparr>selected := True\<rparr>)
                 ((deselect_all (algorithms t2) ! k)\<lparr>selected := True\<rparr>)"
      by (rule clock_alg_rel_flag)
    from list_all2_update_cong [OF base this, of k] show ?thesis by (simp add: select_at_def)
  next
    case False
    moreover from base have "length (deselect_all (algorithms t1)) = length (deselect_all (algorithms t2))"
      by (rule list_all2_lengthD)
    ultimately show ?thesis using base by (simp add: select_at_def list_update_beyond)
  qed
  have allsel: "list_all2 clock_alg_rel (map (\<lambda>a. a\<lparr>selected := True\<rparr>) (deselect_all (algorithms t1)))
                (map (\<lambda>a. a\<lparr>selected := True\<rparr>) (deselect_all (algorithms t2)))"
    using base by (simp add: list_all2_conv_all_nth clock_alg_rel_flag)
  from assms(3) have
    "(\<exists>k. s1 = t1\<lparr>algorithms := select_at k (deselect_all (algorithms t1))\<rparr> \<and>
          s2 = t2\<lparr>algorithms := select_at k (deselect_all (algorithms t2))\<rparr>) \<or>
     (s1 = t1\<lparr>algorithms := map (\<lambda>a. a\<lparr>selected := True\<rparr>) (deselect_all (algorithms t1))\<rparr> \<and>
      s2 = t2\<lparr>algorithms := map (\<lambda>a. a\<lparr>selected := True\<rparr>) (deselect_all (algorithms t2))\<rparr>)"
    using assms(4)
    by (simp add: selectAlgorithm_def Let_def split: if_splits) blast+
  with pick allsel show ?thesis by auto
qed


text \<open>
  Claim C8 as stated fails on the code: the hand is a function-local \<open>static\<close>, so it is
  shared by all simulators of the process and a run starts with the value the previous
  run left. With two frames and the trace \<open>0, 1, 2, 0, 3\<close>, the first run in a fresh
  process (hand \<open>0\<close>) has no hit and evicts \<open>0, 1, 2\<close>; it leaves the hand at \<open>1\<close>, and
  the same run repeated in that environment has one hit and evicts \<open>1, 0\<close>.
\<close>

theorem clock_second_run_differs:
  "\<exists>s1 s2. simulate example_env 2 5 (example_refs [0, 1, 2, 0, 3]) CHR ''C'' = Some s1 \<and>
     simulate (env s1) 2 5 (example_refs [0, 1, 2, 0, 3]) CHR ''C'' = Some s2 \<and>
     algoFunc (algorithms s1 ! 4) = CLOCK \<and> algoFunc (algorithms s2 ! 4) = CLOCK \<and>
     hits (data (algorithms s1 ! 4)) = 0 \<and> misses (data (algorithms s1 ! 4)) = 5 \<and>
     hits (data (algorithms s2 ! 4)) = 1 \<and> misses (data (algorithms s2 ! 4)) = 4 \<and>
     map page (victimList (data (algorithms s1 ! 4))) = [0, 1, 2] \<and>
     map page (victimList (data (algorithms s2 ! 4))) = [1, 0]"
proof -
  have "case simulate example_env 2 5 (example_refs [0, 1, 2, 0, 3]) CHR ''C'' of
          None \<Rightarrow> False
        | Some s1 \<Rightarrow>
            (case simulate (env s1) 2 5 (example_refs [0, 1, 2, 0, 3]) CHR ''C'' of
               None \<Rightarrow> False
             | Some s2 \<Rightarrow>
                 map (\<lambda>a. (algoFunc a, hits (data a), misses (data a), map page (victimList (data a))))
                   [algorithms s1 ! 4, algorithms s2 ! 4]
                 = [(CLOCK, 0, 5, [0, 1, 2]), (CLOCK, 1, 4, [1, 0])])"
    by code_simp
  then show ?thesis by (auto split: option.splits)
qed

text \<open>
  Claim C8, amended. The hand is process-global: a run's CLOCK results are determined
  by the trace, the configuration and the value of the hand when the run starts. Two
  runs (code \<open>C\<close> or \<open>a\<close>) on the same trace with the same configuration whose
  environments agree on the hand - in particular two runs each in a fresh process,
  where the hand is \<open>0\<close> - both return, give CLOCK the same hit and miss counts, the same
  victim log and the same page table (up to the \<open>time\<close> field of the frames, which CLOCK
  never reads), and leave the hand at the same value.
\<close>

theorem clock_same_hand_same_result:
  assumes "0 \<le> clockHand e1" "clockHand e2 = clockHand e1"
    and "c = CHR ''C'' \<or> c = CHR ''a''"
  shows "\<exists>s1 s2. simulate e1 F maxCalls refs c = Some s1 \<and>
           simulate e2 F maxCalls refs c = Some s2 \<and>
           algoFunc (algorithms s1 ! 4) = CLOCK \<and> selected (algorithms s1 ! 4) \<and>
           algoFunc (algorithms s2 ! 4) = CLOCK \<and> selected (algorithms s2 ! 4) \<and>
           hits (data (algorithms s1 ! 4)) = hits (data (algorithms s2 ! 4)) \<and>
           misses (data (algorithms s1 ! 4)) = misses (data (algorithms s2 ! 4)) \<and>
           map untimed_frame (victimList (data (algorithms s1 ! 4))) =
             map untimed_frame (victimList (data (algorithms s2 ! 4))) \<and>
           map untimed_frame (pageTable (data (algorithms s1 ! 4))) =
             map untimed_frame (pageTable (data (algorithms s2 ! 4))) \<and>
           clockHand (env s1) = clockHand (env s2)"
proof -
  from assms(3) have valid: "c \<in> set ''ORFLCNAMnmlfa''" by auto
  from assms(1,2) have h2: "0 \<le> clockHand e2" by simp
  let ?c1 = "(setConfiguration F maxCalls False False (newSimulator e1))\<lparr>pageRefs := refs\<rparr>"
  let ?c2 = "(setConfiguration F maxCalls False False (newSimulator e2))\<lparr>pageRefs := refs\<rparr>"
  from simulate_start [OF assms(1) valid, where nframes = F and maxCalls = maxCalls and refs = refs]
  obtain t1 where
    t1: "selectAlgorithm c ?c1 = Inr t1" "simulate e1 F maxCalls refs c = runSimulation t1"
      "wf_sim t1" "pageRefs t1 = refs" "maxPageCalls t1 = maxCalls" "numFrames t1 = max 1 F"
    by blast
  from simulate_start [OF h2 valid, where nframes = F and maxCalls = maxCalls and refs = refs]
  obtain t2 where
    t2: "selectAlgorithm c ?c2 = Inr t2" "simulate e2 F maxCalls refs c = runSimulation t2"
      "wf_sim t2" "pageRefs t2 = refs" "maxPageCalls t2 = maxCalls" "numFrames t2 = max 1 F"
    by blast
  have a1: "algorithms ?c1 = map (mkAlgorithm (max 1 F) (steadyClock e1 (clockReads (env (newSimulator e1))))) policy_table"
    by (simp add: setConfiguration_def initializeAlgorithms_def Let_def newSimulator_def)
  have a2: "algorithms ?c2 = map (mkAlgorithm (max 1 F) (steadyClock e2 (clockReads (env (newSimulator e2))))) policy_table"
    by (simp add: setConfiguration_def initializeAlgorithms_def Let_def newSimulator_def)
  from selectAlgorithm_Inr [OF t1(1)] have e1: "clockHand (env t1) = clockHand e1"
    by (auto simp: setConfiguration_def initializeAlgorithms_def Let_def newSimulator_def)
  from selectAlgorithm_Inr [OF t2(1)] have e2: "clockHand (env t2) = clockHand e2"
    by (auto simp: setConfiguration_def initializeAlgorithms_def Let_def newSimulator_def)
  let ?u1 = "t1\<lparr>counter := 0, maxPageCalls := min (maxPageCalls t1) (int (length (pageRefs t1)))\<rparr>"
  let ?u2 = "t2\<lparr>counter := 0, maxPageCalls := min (maxPageCalls t2) (int (length (pageRefs t2)))\<rparr>"
  have wf: "wf_sim ?u1" "wf_sim ?u2" using t1(3) t2(3) by (simp_all add: wf_sim_def)
  have rel: "clock_rel ?u1 ?u2"
    using select_clock_rel [OF a1 a2 t1(1) t2(1)] t1(4,5,6) t2(4,5,6) e1 e2 assms(2)
    by (simp add: clock_rel_def)
  from run_loop_clock_rel [OF wf _ rel] obtain s1 s2 where
    r: "run_loop ?u1 = Some s1" "run_loop ?u2 = Some s2" "clock_rel s1 s2" by auto
  from run_loop_flags [OF wf(1)] r(1) have f1:
    "map algoFunc (algorithms s1) = map algoFunc (algorithms t1)"
    "map selected (algorithms s1) = map selected (algorithms t1)" by simp_all
  from run_loop_flags [OF wf(2)] r(2) have f2:
    "map algoFunc (algorithms s2) = map algoFunc (algorithms t2)"
    "map selected (algorithms s2) = map selected (algorithms t2)" by simp_all
  from select_clock [OF assms(3) a1 t1(1)] have k1: "length (algorithms t1) = 12"
    "algoFunc (algorithms t1 ! 4) = CLOCK" "selected (algorithms t1 ! 4)" by simp_all
  from select_clock [OF assms(3) a2 t2(1)] have k2: "length (algorithms t2) = 12"
    "algoFunc (algorithms t2 ! 4) = CLOCK" "selected (algorithms t2 ! 4)" by simp_all
  from f1(1) k1(1) have l1: "length (algorithms s1) = 12" by (metis length_map)
  from f2(1) k2(1) have l2: "length (algorithms s2) = 12" by (metis length_map)
  have c1: "algoFunc (algorithms s1 ! 4) = CLOCK" "selected (algorithms s1 ! 4)"
    using arg_cong [OF f1(1), of "\<lambda>xs. xs ! 4"] arg_cong [OF f1(2), of "\<lambda>xs. xs ! 4"] l1 k1
    by simp_all
  have c2: "algoFunc (algorithms s2 ! 4) = CLOCK" "selected (algorithms s2 ! 4)"
    using arg_cong [OF f2(1), of "\<lambda>xs. xs ! 4"] arg_cong [OF f2(2), of "\<lambda>xs. xs ! 4"] l2 k2
    by simp_all
  from r(3) have "list_all2 clock_alg_rel (algorithms s1) (algorithms s2)"
    and hand: "clockHand (env s1) = clockHand (env s2)" by (simp_all add: clock_rel_def)
  with l1 have "clock_alg_rel (algorithms s1 ! 4) (algorithms s2 ! 4)"
    by (simp add: list_all2_conv_all_nth)
  with c1(1) have "untimed (data (algorithms s1 ! 4)) = untimed (data (algorithms s2 ! 4))"
    by (simp add: clock_alg_rel_def)
  then have "hits (data (algorithms s1 ! 4)) = hits (data (algorithms s2 ! 4))"
    "misses (data (algorithms s1 ! 4)) = misses (data (algorithms s2 ! 4))"
    "map untimed_frame (victimList (data (algorithms s1 ! 4))) =
       map untimed_frame (victimList (data (algorithms s2 ! 4)))"
    "map untimed_frame (pageTable (data (algorithms s1 ! 4))) =
       map untimed_frame (pageTable (data (algorithms s2 ! 4)))"
    unfolding untimed_eq_iff by simp_all
  with c1 c2 hand r(1,2) t1(2) t2(2) show ?thesis by (simp add: runSimulation_def)
qed

theorem clock_same_hand_same_result_witness:
  "0 \<le> clockHand example_env \<and>
   clockHand (example_env\<lparr>clockReads := 7, rngPos := 3\<rparr>) = clockHand example_env \<and>
   (\<exists>s1 s2. simulate example_env 2 5 (example_refs [0, 1, 2, 0, 3]) CHR ''C'' = Some s1 \<and>
      simulate (example_env\<lparr>clockReads := 7, rngPos := 3\<rparr>) 2 5 (example_refs [0, 1, 2, 0, 3]) CHR ''C''
        = Some s2 \<and>
      algoFunc (algorithms s1 ! 4) = CLOCK \<and> selected (algorithms s1 ! 4) \<and>
      algoFunc (algorithms s2 ! 4) = CLOCK \<and> selected (algorithms s2 ! 4) \<and>
      hits (data (algorithms s1 ! 4)) = hits (data (algorithms s2 ! 4)) \<and>
      misses (data (algorithms s1 ! 4)) = misses (data (algorithms s2 ! 4)) \<and>
      map untimed_frame (victimList (data (algorithms s1 ! 4))) =
        map untimed_frame (victimList (data (algorithms s2 ! 4))) \<and>
      map untimed_frame (pageTable (data (algorithms s1 ! 4))) =
        map untimed_frame (pageTable (data (algorithms s2 ! 4))) \<and>
      clockHand (env s1) = clockHand (env s2))"
proof -
  have h: "0 \<le> clockHand example_env"
    "clockHand (example_env\<lparr>clockReads := 7, rngPos := 3\<rparr>) = clockHand example_env"
    "CHR ''C'' = CHR ''C'' \<or> CHR ''C'' = CHR ''a''"
    by (simp_all add: example_env_def)
  from clock_same_hand_same_result [OF h, of 2 5 "example_refs [0, 1, 2, 0, 3]"] h(1,2)
  show ?thesis by blast
qed


section \<open>C7: the frame count and LFRU\<close>

text \<open>
  Claim C7 as stated fails on the code: the simulator never raises the frame count for
  LFRU. \<open>setConfiguration\<close> only clamps to at least \<open>1\<close> and \<open>selectAlgorithm\<close> leaves
  \<open>numFrames\<close> alone, so a simulator configured with three frames runs LFRU (and ALL)
  with \<open>numFrames = 3\<close>, below the ten frames of the partitions. (The tests configure
  LFRU with eight frames and ALL with three.)
\<close>

theorem lfru_frames_not_raised:
  "\<exists>s. simulate example_env 3 1000 (example_refs [1, 2, 1]) CHR ''f'' = Some s \<and>
       algoFunc (algorithms s ! 11) = LFRU \<and> selected (algorithms s ! 11) \<and>
       numFrames s = 3 \<and>
       numFrames s < PRIVILEGED_PARTITION_SIZE + UNPRIVILEGED_PARTITION_SIZE"
proof -
  have "case simulate example_env 3 1000 (example_refs [1, 2, 1]) CHR ''f'' of
          None \<Rightarrow> False
        | Some s \<Rightarrow> (algoFunc (algorithms s ! 11), selected (algorithms s ! 11), numFrames s,
                      numFrames s < PRIVILEGED_PARTITION_SIZE + UNPRIVILEGED_PARTITION_SIZE)
                    = (LFRU, True, 3, True)"
    by code_simp
  then show ?thesis by (auto split: option.splits)
qed

text \<open>
  Claim C7, amended. For every configured value \<open>n\<close>, \<open>setConfiguration\<close> makes the frame
  count \<open>max 1 n\<close> (values below \<open>1\<close> are clamped to \<open>1\<close>), and selecting an algorithm,
  LFRU and ALL included, does not change it. The raise is done by the command-line front
  end before it configures the simulator: \<open>main\<close> rejects an invalid code and a value
  below \<open>1\<close> or above \<open>1000\<close>; otherwise, exactly when the code is \<open>f\<close> or \<open>a\<close> and the
  value is below \<open>P\<^sub>1 + P\<^sub>2\<close>, it prints the warning and configures \<open>P\<^sub>1 + P\<^sub>2\<close> frames.
\<close>

theorem frame_count_adjustment:
  "numFrames (setConfiguration n maxCalls dbg pr s) = max 1 n \<and>
   (\<forall>s'. selectAlgorithm c s = Inr s' \<longrightarrow> numFrames s' = numFrames s) \<and>
   (case main_configure e c n pr dbg of
      Inl msg \<Rightarrow> c \<notin> set ''ORFLCNAMnmlfa'' \<or> n < 1 \<or> n > 1000
    | Inr (warned, sim) \<Rightarrow>
        c \<in> set ''ORFLCNAMnmlfa'' \<and> 1 \<le> n \<and> n \<le> 1000 \<and>
        warned = ((c = CHR ''f'' \<or> c = CHR ''a'') \<and>
                  n < PRIVILEGED_PARTITION_SIZE + UNPRIVILEGED_PARTITION_SIZE) \<and>
        numFrames sim =
          (if warned then PRIVILEGED_PARTITION_SIZE + UNPRIVILEGED_PARTITION_SIZE else n))"
proof (intro conjI allI impI)
  show "numFrames (setConfiguration n maxCalls dbg pr s) = max 1 n"
    by (simp add: setConfiguration_def initializeAlgorithms_def Let_def)
next
  fix s' assume "selectAlgorithm c s = Inr s'"
  from selectAlgorithm_Inr [OF this] show "numFrames s' = numFrames s" by auto
next
  have nf: "numFrames (setConfiguration k 1000 dbg pr (newSimulator e)) = max 1 k" for k
    by (simp add: setConfiguration_def initializeAlgorithms_def Let_def)
  show "case main_configure e c n pr dbg of
      Inl msg \<Rightarrow> c \<notin> set ''ORFLCNAMnmlfa'' \<or> n < 1 \<or> n > 1000
    | Inr (warned, sim) \<Rightarrow>
        c \<in> set ''ORFLCNAMnmlfa'' \<and> 1 \<le> n \<and> n \<le> 1000 \<and>
        warned = ((c = CHR ''f'' \<or> c = CHR ''a'') \<and>
                  n < PRIVILEGED_PARTITION_SIZE + UNPRIVILEGED_PARTITION_SIZE) \<and>
        numFrames sim =
          (if warned then PRIVILEGED_PARTITION_SIZE + UNPRIVILEGED_PARTITION_SIZE else n)"
  proof (cases "validateArguments c n")
    case (Some msg)
    then have "c \<notin> set ''ORFLCNAMnmlfa'' \<or> n < 1 \<or> n > 1000"
      unfolding validateArguments_def by (simp split: if_splits)
    with Some show ?thesis by (simp add: main_configure_def)
  next
    case None
    then have v: "c \<in> set ''ORFLCNAMnmlfa''" "1 \<le> n" "n \<le> 1000"
      unfolding validateArguments_def by (simp_all split: if_splits)
    show ?thesis
    proof (cases "(c = CHR ''f'' \<or> c = CHR ''a'') \<and>
                  n < PRIVILEGED_PARTITION_SIZE + UNPRIVILEGED_PARTITION_SIZE")
      case True
      then have "adjustFrames c n = (PRIVILEGED_PARTITION_SIZE + UNPRIVILEGED_PARTITION_SIZE, True)"
        by (simp add: adjustFrames_def Let_def)
      with None v True show ?thesis
        by (simp add: main_configure_def nf PRIVILEGED_PARTITION_SIZE_def
              UNPRIVILEGED_PARTITION_SIZE_def del: set_simps)
    next
      case False
      then have "adjustFrames c n = (n, False)"
        by (auto simp: adjustFrames_def Let_def)
      with None v False show ?thesis
        by (simp add: main_configure_def nf del: set_simps)
    qed
  qed
qed

theorem frame_count_adjustment_witness:
  "numFrames (setConfiguration 0 1000 False False (newSimulator example_env)) = 1 \<and>
   (\<exists>s'. selectAlgorithm CHR ''f'' (setConfiguration 3 1000 False False (newSimulator example_env))
            = Inr s' \<and> numFrames s' = 3) \<and>
   (\<exists>sim. main_configure example_env CHR ''f'' 3 False False = Inr (True, sim) \<and>
           numFrames sim = 10)"
proof -
  let ?s3 = "setConfiguration 3 1000 False False (newSimulator example_env)"
  from frame_count_adjustment [of 0 1000 False False "newSimulator example_env"]
  have a: "numFrames (setConfiguration 0 1000 False False (newSimulator example_env)) = 1"
    by simp
  obtain s' where s': "selectAlgorithm CHR ''f'' ?s3 = Inr s'"
    using selectAlgorithm_valid [of "CHR ''f''" ?s3] by auto
  from frame_count_adjustment [of 3 1000 False False "newSimulator example_env"]
  have "numFrames ?s3 = 3" by simp
  with frame_count_adjustment [where s = ?s3 and c = "CHR ''f''"] s'
  have b: "numFrames s' = 3" by simp
  from frame_count_adjustment [of 3 1000 False False "newSimulator example_env" "CHR ''f''"
      example_env]
  have c: "\<exists>sim. main_configure example_env CHR ''f'' 3 False False = Inr (True, sim) \<and>
           numFrames sim = 10"
    by (cases "main_configure example_env CHR ''f'' 3 False False")
       (auto simp: PRIVILEGED_PARTITION_SIZE_def UNPRIVILEGED_PARTITION_SIZE_def)
  from a b c s' show ?thesis by blast
qed


section \<open>C9: trace ingestion\<close>

text \<open>
  The loop \<open>while (file >> pid >> page)\<close> of \<open>loadPageReferences\<close> reads the file as a
  stream of characters. \<open>isspace\<close> and \<open>isdigit\<close> are those of the C locale.
\<close>

definition INT_MIN :: int where
  "INT_MIN = - INT_MAX - 1"

definition isspace :: "char \<Rightarrow> bool" where
  "isspace c \<longleftrightarrow> c = CHR '' '' \<or> (9 \<le> (of_char c :: nat) \<and> (of_char c :: nat) \<le> 13)"

definition isdigit :: "char \<Rightarrow> bool" where
  "isdigit c \<longleftrightarrow> 48 \<le> (of_char c :: nat) \<and> (of_char c :: nat) \<le> 57"

definition digits_value :: "string \<Rightarrow> int" where
  "digits_value ds = foldl (\<lambda>a c. 10 * a + int (of_char c - 48)) 0 ds"

text \<open>
  The extraction \<open>file >> n\<close> for an \<open>int\<close>: skip white space, accept an optional sign and
  then decimal digits; it fails when there is no digit or the value is outside the range
  of \<open>int\<close>. The result is the value and the unread rest of the stream.
\<close>

definition read_sign :: "string \<Rightarrow> bool \<times> string" where
  "read_sign s =
     (case s of
        [] \<Rightarrow> (False, [])
      | c # r \<Rightarrow> if c = CHR ''-'' then (True, r)
                 else if c = CHR ''+'' then (False, r) else (False, c # r))"

definition read_int :: "string \<Rightarrow> (int \<times> string) option" where
  "read_int s =
     (let (neg, s2) = read_sign (dropWhile isspace s);
          ds = takeWhile isdigit s2;
          v = (if neg then - digits_value ds else digits_value ds)
      in if ds = [] \<or> v < INT_MIN \<or> INT_MAX < v then None
         else Some (v, dropWhile isdigit s2))"

lemma read_sign_length: "length (snd (read_sign s)) \<le> length s"
  by (cases s) (simp_all add: read_sign_def)

lemma read_int_shorter: "read_int s = Some (v, r) \<Longrightarrow> length r < length s"
proof -
  assume a: "read_int s = Some (v, r)"
  let ?s1 = "dropWhile isspace s"
  obtain neg s2 where ns: "read_sign ?s1 = (neg, s2)" by (cases "read_sign ?s1")
  from a ns have ne: "takeWhile isdigit s2 \<noteq> []" and r: "r = dropWhile isdigit s2"
    by (auto simp: read_int_def Let_def split: if_splits)
  have "length s2 \<le> length ?s1" using read_sign_length [of ?s1] ns by simp
  moreover have "length ?s1 \<le> length s" by (rule length_dropWhile_le)
  moreover have "length (takeWhile isdigit s2) + length (dropWhile isdigit s2) = length s2"
    by (metis length_append takeWhile_dropWhile_id)
  moreover from ne have "0 < length (takeWhile isdigit s2)" by simp
  ultimately show ?thesis unfolding r by linarith
qed

function read_refs :: "string \<Rightarrow> PageRef list" where
  "read_refs s =
     (case read_int s of
        None \<Rightarrow> []
      | Some (p, s') \<Rightarrow>
          (case read_int s' of
             None \<Rightarrow> []
           | Some (pg, s'') \<Rightarrow> \<lparr>pageNum = pg, pid = p\<rparr> # read_refs s''))"
  by pat_completeness auto

termination read_refs
proof (relation "measure length", goal_cases)
  case 1
  show ?case by simp
next
  case (2 s x2 p s' x2a pg s'')
  then have "read_int s = Some (p, s')" "read_int s' = Some (pg, s'')" by simp_all
  from read_int_shorter [OF this(1)] read_int_shorter [OF this(2)] show ?case by simp
qed

declare read_refs.simps [simp del]

text \<open>
  \<open>loadPageReferences\<close>. The file system is the argument \<open>file\<close>: \<open>None\<close> when the file cannot
  be opened, otherwise its content. On failure the function returns before
  \<open>pageRefs.clear()\<close>; the message on \<open>cout\<close> is left out.
\<close>

definition loadPageReferences :: "string option \<Rightarrow> Sim \<Rightarrow> bool \<times> Sim" where
  "loadPageReferences file s =
     (case file of
        None \<Rightarrow> (False, s)
      | Some content \<Rightarrow> (True, s\<lparr>pageRefs := read_refs content\<rparr>))"

text \<open>The writer of the test suite (\<open>createTestFile\<close>): one line \<open>first second\<close> per pair.\<close>

fun show_nat :: "nat \<Rightarrow> string" where
  "show_nat n = (if n < 10 then [char_of (48 + n)] else show_nat (n div 10) @ [char_of (48 + n mod 10)])"

declare show_nat.simps [simp del]

definition show_int :: "int \<Rightarrow> string" where
  "show_int v = (if v < 0 then CHR ''-'' # show_nat (nat (- v)) else show_nat (nat v))"

definition createTestFile :: "(int \<times> int) list \<Rightarrow> string" where
  "createTestFile references =
     concat (map (\<lambda>(first, second). show_int first @ '' '' @ show_int second @ [CHR 0x0A]) references)"

lemma of_char_digit: "d < 10 \<Longrightarrow> (of_char (char_of (48 + d :: nat)) :: nat) = 48 + d"
  by simp

lemma isdigit_char_of: "d < 10 \<Longrightarrow> isdigit (char_of (48 + d :: nat))"
  by (simp add: isdigit_def of_char_digit)

lemma show_nat_digits: "list_all isdigit (show_nat n)"
proof (induction n rule: show_nat.induct)
  case (1 n)
  show ?case
  proof (cases "n < 10")
    case True
    then show ?thesis by (subst show_nat.simps) (simp add: isdigit_char_of)
  next
    case False
    with 1 show ?thesis by (subst show_nat.simps) (simp add: isdigit_char_of)
  qed
qed

lemma show_nat_nonempty: "show_nat n \<noteq> []"
  by (subst show_nat.simps) simp

lemma digits_value_snoc: "digits_value (ds @ [c]) = 10 * digits_value ds + int (of_char c - 48)"
  by (simp add: digits_value_def)

lemma digits_value_show_nat: "digits_value (show_nat n) = int n"
proof (induction n rule: show_nat.induct)
  case (1 n)
  show ?case
  proof (cases "n < 10")
    case True
    then show ?thesis by (subst show_nat.simps) (simp add: digits_value_def of_char_digit)
  next
    case False
    with 1 have "digits_value (show_nat (n div 10)) = int (n div 10)" by simp
    moreover have "10 * int (n div 10) + int (n mod 10) = int n"
      by (simp add: zdiv_int zmod_int)
    ultimately show ?thesis using False
      by (subst show_nat.simps) (simp add: digits_value_snoc of_char_digit)
  qed
qed

lemma takeWhile_digits:
  assumes "list_all isdigit ds" "r = [] \<or> \<not> isdigit (hd r)"
  shows "takeWhile isdigit (ds @ r) = ds" "dropWhile isdigit (ds @ r) = r"
proof -
  from assms(2) have "takeWhile isdigit r = []" "dropWhile isdigit r = r" by (cases r; auto)+
  with assms(1) show "takeWhile isdigit (ds @ r) = ds" "dropWhile isdigit (ds @ r) = r"
    by (simp_all add: list_all_iff)
qed

lemma not_space_digit: "isdigit c \<Longrightarrow> \<not> isspace c \<and> c \<noteq> CHR ''-'' \<and> c \<noteq> CHR ''+''"
  by (auto simp: isdigit_def isspace_def)

lemma read_int_show_int:
  assumes "INT_MIN \<le> v" "v \<le> INT_MAX" "r = [] \<or> \<not> isdigit (hd r)"
  shows "read_int (show_int v @ r) = Some (v, r)"
proof -
  define n where "n = nat \<bar>v\<bar>"
  obtain d ds where dds: "show_nat n = d # ds" using show_nat_nonempty [of n] by (cases "show_nat n") auto
  from show_nat_digits [of n] dds have d: "isdigit d" by simp
  note nsd = not_space_digit [OF d]
  note tw = takeWhile_digits [OF show_nat_digits assms(3), of n]
  show ?thesis
  proof (cases "v < 0")
    case True
    then have sv: "show_int v = CHR ''-'' # show_nat n" by (simp add: show_int_def n_def)
    have "\<not> isspace CHR ''-''" by (simp add: isspace_def)
    then have "dropWhile isspace (show_int v @ r) = CHR ''-'' # (show_nat n @ r)" by (simp add: sv)
    then have "read_sign (dropWhile isspace (show_int v @ r)) = (True, show_nat n @ r)"
      by (simp add: read_sign_def)
    moreover have "- digits_value (show_nat n) = v" using True by (simp add: digits_value_show_nat n_def)
    ultimately show ?thesis using assms(1,2) tw
      by (simp add: read_int_def Let_def show_nat_nonempty)
  next
    case False
    then have sv: "show_int v = show_nat n" by (simp add: show_int_def n_def)
    have "dropWhile isspace (show_int v @ r) = d # (ds @ r)" using nsd by (simp add: sv dds)
    then have "read_sign (dropWhile isspace (show_int v @ r)) = (False, d # (ds @ r))"
      using nsd by (simp add: read_sign_def)
    moreover have "d # (ds @ r) = show_nat n @ r" by (simp add: dds)
    moreover have "digits_value (show_nat n) = v" using False by (simp add: digits_value_show_nat n_def)
    ultimately show ?thesis using assms(1,2) tw
      by (simp add: read_int_def Let_def show_nat_nonempty)
  qed
qed

lemma read_int_skip: "isspace c \<Longrightarrow> read_int (c # s) = read_int s"
  by (simp add: read_int_def)


lemma read_refs_skip: "isspace c \<Longrightarrow> read_refs (c # s) = read_refs s"
  by (subst read_refs.simps, subst (2) read_refs.simps) (simp add: read_int_skip)

lemma read_refs_line:
  assumes "INT_MIN \<le> a" "a \<le> INT_MAX" "INT_MIN \<le> b" "b \<le> INT_MAX"
  shows "read_refs (show_int a @ '' '' @ show_int b @ [CHR 0x0A] @ rest) =
           \<lparr>pageNum = b, pid = a\<rparr> # read_refs rest"
proof -
  have sp: "isspace CHR '' ''" "isspace CHR 0x0A" "\<not> isdigit CHR '' ''" "\<not> isdigit CHR 0x0A"
    by (simp_all add: isspace_def isdigit_def)
  have "read_int (show_int a @ (CHR '' '' # show_int b @ CHR 0x0A # rest)) =
          Some (a, CHR '' '' # show_int b @ CHR 0x0A # rest)"
    by (rule read_int_show_int [OF assms(1,2)]) (simp add: sp)
  moreover have "read_int (CHR '' '' # show_int b @ CHR 0x0A # rest) =
          read_int (show_int b @ CHR 0x0A # rest)"
    by (rule read_int_skip [OF sp(1)])
  moreover have "read_int (show_int b @ CHR 0x0A # rest) = Some (b, CHR 0x0A # rest)"
    by (rule read_int_show_int [OF assms(3,4)]) (simp add: sp)
  ultimately have "read_refs (show_int a @ (CHR '' '' # show_int b @ CHR 0x0A # rest)) =
          \<lparr>pageNum = b, pid = a\<rparr> # read_refs (CHR 0x0A # rest)"
    by (subst read_refs.simps) simp
  then show ?thesis by (simp add: read_refs_skip [OF sp(2)])
qed

lemma read_refs_createTestFile:
  assumes "\<forall>(a, b) \<in> set references. INT_MIN \<le> a \<and> a \<le> INT_MAX \<and> INT_MIN \<le> b \<and> b \<le> INT_MAX"
  shows "read_refs (createTestFile references @ tail) =
           map (\<lambda>(a, b). \<lparr>pageNum = b, pid = a\<rparr>) references @ read_refs tail"
  using assms
proof (induction references)
  case Nil
  show ?case by (simp add: createTestFile_def)
next
  case (Cons x xs)
  obtain a b where x: "x = (a, b)" by (cases x)
  from Cons.prems have r: "INT_MIN \<le> a" "a \<le> INT_MAX" "INT_MIN \<le> b" "b \<le> INT_MAX"
    by (simp_all add: x)
  have "createTestFile (x # xs) @ tail =
          show_int a @ '' '' @ show_int b @ [CHR 0x0A] @ (createTestFile xs @ tail)"
    by (simp add: createTestFile_def x)
  with read_refs_line [OF r, of "createTestFile xs @ tail"] Cons show ?case
    by (simp add: x)
qed

text \<open>
  Line breaks are white space like any other to the reader: the result does not depend
  on how the integers are distributed over lines.
\<close>

definition blank :: "char \<Rightarrow> char" where
  "blank c = (if isspace c then CHR '' '' else c)"

lemma blank_facts:
  "isspace (blank c) = isspace c" "isdigit (blank c) = isdigit c"
  "blank c = CHR ''-'' \<longleftrightarrow> c = CHR ''-''" "blank c = CHR ''+'' \<longleftrightarrow> c = CHR ''+''"
  "isdigit c \<Longrightarrow> blank c = c"
  by (auto simp: blank_def isspace_def isdigit_def)

lemma dropWhile_blank: "dropWhile isspace (map blank s) = map blank (dropWhile isspace s)"
  by (induction s) (simp_all add: blank_facts)

lemma dropWhile_digit_blank: "dropWhile isdigit (map blank s) = map blank (dropWhile isdigit s)"
  by (induction s) (simp_all add: blank_facts)

lemma takeWhile_digit_blank: "takeWhile isdigit (map blank s) = takeWhile isdigit s"
  by (induction s) (simp_all add: blank_facts)

lemma read_sign_blank:
  "read_sign (map blank s) = (fst (read_sign s), map blank (snd (read_sign s)))"
  by (cases s) (simp_all add: read_sign_def blank_facts)

lemma read_int_blank:
  "read_int (map blank s) = map_option (\<lambda>(v, r). (v, map blank r)) (read_int s)"
  by (simp add: read_int_def Let_def dropWhile_blank read_sign_blank split_beta
        takeWhile_digit_blank dropWhile_digit_blank)

lemma read_refs_blank: "read_refs (map blank s) = read_refs s"
proof (induction s rule: read_refs.induct)
  case (1 s)
  note L = read_refs.simps [of "map blank s"] and R = read_refs.simps [of s]
  show ?case
  proof (cases "read_int s")
    case None
    then show ?thesis unfolding L R by (simp add: read_int_blank)
  next
    case (Some x)
    obtain p s' where x: "x = (p, s')" by (cases x)
    note rs = Some [unfolded x]
    show ?thesis
    proof (cases "read_int s'")
      case None
      with rs show ?thesis unfolding L R by (simp add: read_int_blank)
    next
      case (Some y)
      obtain pg s'' where y: "y = (pg, s'')" by (cases y)
      note rs' = Some [unfolded y]
      from "1.IH" [OF rs refl rs' refl]
      have "read_refs (map blank s'') = read_refs s''" .
      with rs rs' show ?thesis unfolding L R by (simp add: read_int_blank)
    qed
  qed
qed

text \<open>The reading the specification describes: line by line, up to the first line from
  which two integers cannot be parsed.\<close>

fun spec_lines_from :: "string \<Rightarrow> string \<Rightarrow> string list" where
  "spec_lines_from cur [] = (if cur = [] then [] else [cur])"
| "spec_lines_from cur (c # s) =
     (if c = CHR 0x0A then cur # spec_lines_from [] s else spec_lines_from (cur @ [c]) s)"

definition spec_parse_line :: "string \<Rightarrow> PageRef option" where
  "spec_parse_line l =
     (case read_int l of
        None \<Rightarrow> None
      | Some (p, r) \<Rightarrow>
          (case read_int r of
             None \<Rightarrow> None
           | Some (pg, r') \<Rightarrow> Some \<lparr>pageNum = pg, pid = p\<rparr>))"

fun spec_ingest :: "string list \<Rightarrow> PageRef list" where
  "spec_ingest [] = []"
| "spec_ingest (l # ls) =
     (case spec_parse_line l of None \<Rightarrow> [] | Some r \<Rightarrow> r # spec_ingest ls)"

text \<open>
  Claim C9 as stated fails on the code: the reader works on white-space separated
  integers, not on lines. In the file with the lines \<open>1 2\<close>, \<open>3\<close>, \<open>4 5\<close> the second
  line does not hold two integers, but ingestion does not stop there: the code pairs the
  \<open>3\<close> with the \<open>4\<close> of the next line and loads two references, the second of which is
  on no line of the file; reading line by line gives the single reference \<open>(1, 2)\<close>.
\<close>

theorem ingestion_pairs_across_lines:
  "loadPageReferences (Some (''1 2'' @ [CHR 0x0A] @ ''3'' @ [CHR 0x0A] @ ''4 5'' @ [CHR 0x0A]))
     (newSimulator example_env) =
     (True, (newSimulator example_env)
              \<lparr>pageRefs := [\<lparr>pageNum = 2, pid = 1\<rparr>, \<lparr>pageNum = 4, pid = 3\<rparr>]\<rparr>) \<and>
   spec_parse_line ''3'' = None \<and>
   spec_ingest (spec_lines_from []
       (''1 2'' @ [CHR 0x0A] @ ''3'' @ [CHR 0x0A] @ ''4 5'' @ [CHR 0x0A])) =
     [\<lparr>pageNum = 2, pid = 1\<rparr>]"
proof -
  have "read_refs (''1 2'' @ [CHR 0x0A] @ ''3'' @ [CHR 0x0A] @ ''4 5'' @ [CHR 0x0A]) =
          [\<lparr>pageNum = 2, pid = 1\<rparr>, \<lparr>pageNum = 4, pid = 3\<rparr>]"
    by code_simp
  moreover have "spec_parse_line ''3'' = None" by code_simp
  moreover have "spec_ingest (spec_lines_from []
       (''1 2'' @ [CHR 0x0A] @ ''3'' @ [CHR 0x0A] @ ''4 5'' @ [CHR 0x0A])) =
     [\<lparr>pageNum = 2, pid = 1\<rparr>]"
    by code_simp
  ultimately show ?thesis by (simp add: loadPageReferences_def)
qed

text \<open>
  Claim C9, amended. Loading an unreadable file returns \<open>false\<close> and changes nothing (no
  policy has run, and the references loaded before are kept); an empty file loads with
  zero references. Otherwise ingestion reads white-space separated integers in pairs
  \<open>(pid, page)\<close>, line breaks counting as white space only (replacing every white-space
  character by a blank does not change the result), and stops at the first place where
  it cannot read two integers, keeping every reference read before: a file of lines
  \<open>pid page\<close> (as \<open>createTestFile\<close> writes them) followed by a tail that does not start
  with two integers loads exactly the references of those lines.
\<close>

theorem load_page_references:
  "loadPageReferences None s = (False, s) \<and>
   loadPageReferences (Some []) s = (True, s\<lparr>pageRefs := []\<rparr>) \<and>
   ((\<forall>(a, b) \<in> set references. INT_MIN \<le> a \<and> a \<le> INT_MAX \<and> INT_MIN \<le> b \<and> b \<le> INT_MAX) \<and>
    (read_int tail = None \<or> (\<exists>p t. read_int tail = Some (p, t) \<and> read_int t = None)) \<longrightarrow>
    loadPageReferences (Some (createTestFile references @ tail)) s =
      (True, s\<lparr>pageRefs := map (\<lambda>(a, b). \<lparr>pageNum = b, pid = a\<rparr>) references\<rparr>)) \<and>
   loadPageReferences (Some (map blank content)) s = loadPageReferences (Some content) s"
proof (intro conjI impI)
  show "loadPageReferences None s = (False, s)" by (simp add: loadPageReferences_def)
  have "read_int [] = None" by (simp add: read_int_def read_sign_def)
  then have "read_refs [] = []" by (subst read_refs.simps) simp
  then show "loadPageReferences (Some []) s = (True, s\<lparr>pageRefs := []\<rparr>)"
    by (simp add: loadPageReferences_def)
  show "loadPageReferences (Some (map blank content)) s = loadPageReferences (Some content) s"
    by (simp add: loadPageReferences_def read_refs_blank)
next
  assume a: "(\<forall>(a, b) \<in> set references. INT_MIN \<le> a \<and> a \<le> INT_MAX \<and> INT_MIN \<le> b \<and> b \<le> INT_MAX) \<and>
    (read_int tail = None \<or> (\<exists>p t. read_int tail = Some (p, t) \<and> read_int t = None))"
  then have "read_refs tail = []" by (subst read_refs.simps) auto
  with read_refs_createTestFile [of references tail] a
  show "loadPageReferences (Some (createTestFile references @ tail)) s =
      (True, s\<lparr>pageRefs := map (\<lambda>(a, b). \<lparr>pageNum = b, pid = a\<rparr>) references\<rparr>)"
    by (simp add: loadPageReferences_def)
qed

theorem load_page_references_witness:
  "read_int ''7'' = Some (7, []) \<and> read_int [] = None \<and>
   createTestFile [(1, 2), (3, -4)] = ''1 2'' @ [CHR 0x0A] @ ''3 -4'' @ [CHR 0x0A] \<and>
   loadPageReferences (Some (createTestFile [(1, 2), (3, -4)] @ ''7'')) (newSimulator example_env) =
     (True, (newSimulator example_env)
              \<lparr>pageRefs := [\<lparr>pageNum = 2, pid = 1\<rparr>, \<lparr>pageNum = -4, pid = 3\<rparr>]\<rparr>)"
proof -
  have r: "read_int ''7'' = Some (7, [])" "read_int [] = None" by code_simp+
  have c: "createTestFile [(1, 2), (3, -4)] = ''1 2'' @ [CHR 0x0A] @ ''3 -4'' @ [CHR 0x0A]"
    by code_simp
  have h: "\<forall>(a, b) \<in> set [(1, 2), (3, -4)].
             INT_MIN \<le> a \<and> a \<le> INT_MAX \<and> INT_MIN \<le> b \<and> b \<le> INT_MAX"
    by (simp add: INT_MIN_def INT_MAX_def)
  from load_page_references [of "newSimulator example_env" "[(1, 2), (3, -4)]" "''7''"] h r
  have "loadPageReferences (Some (createTestFile [(1, 2), (3, -4)] @ ''7'')) (newSimulator example_env) =
     (True, (newSimulator example_env)
              \<lparr>pageRefs := [\<lparr>pageNum = 2, pid = 1\<rparr>, \<lparr>pageNum = -4, pid = 3\<rparr>]\<rparr>)"
    by simp
  with r c show ?thesis by simp
qed


section \<open>C6: NRU and LRU\<close>























end
